theory Spec2Isabelle
  imports Complex_Main "HOL-Library.Char_ord" "HOL-Library.List_Lexorder" "HOL-Library.Multiset"
begin

section \<open>Strings\<close>

text \<open>
  A JavaScript string is modelled as a \<^typ>\<open>string\<close> of ASCII characters, and the model
  covers ASCII text only: case mapping touches the 26 ASCII letters and white space is
  the six ASCII white-space characters. What JavaScript does with characters outside
  ASCII is not modelled (\<open>trim\<close> also strips U+00A0, U+FEFF and the Unicode spaces, and the
  case mappings also change letters outside ASCII), so every property below is a
  property of the code on ASCII input.
\<close>

definition isSpace :: "char \<Rightarrow> bool" where
  "isSpace c = (c \<in> set [CHR 0x09, CHR 0x0A, CHR 0x0B, CHR 0x0C, CHR 0x0D, CHR '' ''])"

definition isDigit :: "char \<Rightarrow> bool" where
  "isDigit c = (c \<in> set ''0123456789'')"

definition isLower :: "char \<Rightarrow> bool" where
  "isLower c = (c \<in> set ''abcdefghijklmnopqrstuvwxyz'')"

definition isUpper :: "char \<Rightarrow> bool" where
  "isUpper c = (c \<in> set ''ABCDEFGHIJKLMNOPQRSTUVWXYZ'')"

definition toUpperChar :: "char \<Rightarrow> char" where
  "toUpperChar c =
     (case map_of (zip ''abcdefghijklmnopqrstuvwxyz'' ''ABCDEFGHIJKLMNOPQRSTUVWXYZ'') c of
        Some u \<Rightarrow> u | None \<Rightarrow> c)"

definition toLowerChar :: "char \<Rightarrow> char" where
  "toLowerChar c =
     (case map_of (zip ''ABCDEFGHIJKLMNOPQRSTUVWXYZ'' ''abcdefghijklmnopqrstuvwxyz'') c of
        Some l \<Rightarrow> l | None \<Rightarrow> c)"

definition toUpperCase :: "string \<Rightarrow> string" where
  "toUpperCase s = map toUpperChar s"

definition toLowerCase :: "string \<Rightarrow> string" where
  "toLowerCase s = map toLowerChar s"

definition trim :: "string \<Rightarrow> string" where
  "trim s = rev (dropWhile isSpace (rev (dropWhile isSpace s)))"

fun startsWith :: "string \<Rightarrow> string \<Rightarrow> bool" where
  "startsWith s [] = True"
| "startsWith [] (k # ks) = False"
| "startsWith (c # cs) (k # ks) = (c = k \<and> startsWith cs ks)"

text \<open>\<open>s.includes(k)\<close>: \<open>k\<close> occurs in \<open>s\<close> as a contiguous run of characters.\<close>

fun includes' :: "string \<Rightarrow> string \<Rightarrow> bool" where
  "includes' [] k = (k = [])"
| "includes' (c # cs) k = (startsWith (c # cs) k \<or> includes' cs k)"

text \<open>\<open>xs.join(sep)\<close>.\<close>

fun join :: "string \<Rightarrow> string list \<Rightarrow> string" where
  "join sep [] = []"
| "join sep [x] = x"
| "join sep (x # y # ys) = x @ sep @ join sep (y # ys)"

text \<open>
  \<open>s.split(sep)\<close> for a one-character separator: the pieces between the separators, empty
  pieces included; the empty string splits into one empty piece.
\<close>

fun split :: "char \<Rightarrow> string \<Rightarrow> string list" where
  "split sep [] = [[]]"
| "split sep (c # cs) =
     (if c = sep then [] # split sep cs
      else (case split sep cs of p # ps \<Rightarrow> (c # p) # ps | [] \<Rightarrow> [[c]]))"

text \<open>\<open>s.padStart(2, '0')\<close>.\<close>

definition padStart2 :: "string \<Rightarrow> string" where
  "padStart2 s = replicate (2 - length s) CHR ''0'' @ s"

section \<open>The categorizer (utils.ts, getCategory)\<close>

text \<open>
  \<open>categorizationMap\<close> is a \<open>Map<string, string>\<close> imported from a module that is not part
  of the sources at hand; it is a parameter here, given as the list of its entries in
  iteration order. \<open>foundCategories\<close> is a \<open>Set\<close>, kept as the list of its members in
  insertion order.
\<close>

definition setAdd :: "'a \<Rightarrow> 'a list \<Rightarrow> 'a list" where
  "setAdd v found = (if v \<in> set found then found else found @ [v])"

fun foundCategories :: "(string \<times> string) list \<Rightarrow> string \<Rightarrow> string list \<Rightarrow> string list" where
  "foundCategories [] desc found = found"
| "foundCategories ((key, val) # entries) desc found =
     foundCategories entries desc
       (if includes' desc (toUpperCase key) then setAdd val found else found)"

definition getCategory :: "(string \<times> string) list \<Rightarrow> string \<Rightarrow> string" where
  "getCategory categorizationMap description =
     (let desc = toUpperCase description;
          found = foundCategories categorizationMap desc []
      in if length found > 0 then join ''-'' (sort found) else ''Other'')"

text \<open>The labels whose keyword occurs, ignoring case, in the upper-cased description.\<close>

definition matchedLabels :: "(string \<times> string) list \<Rightarrow> string \<Rightarrow> string set" where
  "matchedLabels table description =
     {v. \<exists>k a b. (k, v) \<in> set table \<and> toUpperCase description = a @ toUpperCase k @ b}"

section \<open>Numbers and the host environment\<close>

text \<open>
  A JavaScript number is modelled as a real number: arithmetic is exact, and rounding to
  binary floating point, infinities and NaN are outside the model (a function that can
  yield NaN returns an option). A \<open>Date\<close> object is its time value, an integer count of
  milliseconds since the epoch, or the invalid date.
\<close>

datatype jsDate = Date (timeValue: int) | InvalidDate

text \<open>
  What the code takes from its JavaScript host and the sources do not fix is a parameter:
  generic date-string parsing (\<open>new Date(s)\<close>), the local calendar fields of a time value
  (\<open>getFullYear\<close>, \<open>getMonth\<close>, \<open>getDate\<close>), the string conversion of a date, the string
  conversion of a number (used by \<open>toFixed\<close> only from 10^21 on) and the locale's string
  comparison.
\<close>

record host =
  parseDateString :: "string \<Rightarrow> jsDate"
  localFields :: "int \<Rightarrow> int \<times> int \<times> int"
  dateToString :: "jsDate \<Rightarrow> string"
  numberToString :: "real \<Rightarrow> string"
  localeCompare :: "string \<Rightarrow> string \<Rightarrow> int"

definition digitChar :: "nat \<Rightarrow> char" where
  "digitChar d = ''0123456789'' ! d"

text \<open>The decimal digits of a natural number, most significant first.\<close>

fun digitsOf :: "nat \<Rightarrow> string" where
  "digitsOf n = (if n < 10 then [digitChar n] else digitsOf (n div 10) @ [digitChar (n mod 10)])"

declare digitsOf.simps [simp del]

text \<open>\<open>String(n)\<close> for an integer.\<close>

definition intToString :: "int \<Rightarrow> string" where
  "intToString i = (if i < 0 then ''-'' @ digitsOf (nat (- i)) else digitsOf (nat i))"

text \<open>
  \<open>x.toFixed(f)\<close>: the sign, then the integer \<open>n\<close> nearest to \<open>|x| * 10^f\<close> (the larger one
  on a tie), padded with zeros to at least \<open>f + 1\<close> digits, with a point before the last
  \<open>f\<close> digits; from 10^21 on the number's plain string conversion.
\<close>

definition toFixed :: "host \<Rightarrow> nat \<Rightarrow> real \<Rightarrow> string" where
  "toFixed h f x0 =
     (let s = (if x0 < 0 then ''-'' else []);
          x = (if x0 < 0 then - x0 else x0)
      in if x \<ge> 10 ^ 21 then s @ numberToString h x
         else
           let n = nat \<lfloor>x * 10 ^ f + 1 / 2\<rfloor>;
               m = digitsOf n;
               m = (if f \<noteq> 0 \<and> length m \<le> f then replicate (f + 1 - length m) CHR ''0'' @ m else m)
           in if f \<noteq> 0 then s @ take (length m - f) m @ ''.'' @ drop (length m - f) m
              else s @ m)"

definition digitVal :: "char \<Rightarrow> nat" where
  "digitVal c =
     (case map_of [(CHR ''0'', 0), (CHR ''1'', 1), (CHR ''2'', 2), (CHR ''3'', 3), (CHR ''4'', 4),
                   (CHR ''5'', 5), (CHR ''6'', 6), (CHR ''7'', 7), (CHR ''8'', 8), (CHR ''9'', 9)] c of
        Some n \<Rightarrow> n | None \<Rightarrow> 0)"

definition digitsVal :: "string \<Rightarrow> nat" where
  "digitsVal ds = foldl (\<lambda>a c. 10 * a + digitVal c) 0 ds"

text \<open>
  \<open>parseInt(s, 10)\<close>: leading white space and one sign are skipped, then the longest run
  of digits is read; no digit at all gives NaN, here \<open>None\<close>.
\<close>

definition parseInt :: "string \<Rightarrow> int option" where
  "parseInt s =
     (let s1 = dropWhile isSpace s;
          neg = (s1 \<noteq> [] \<and> hd s1 = CHR ''-'');
          s2 = (if s1 \<noteq> [] \<and> (hd s1 = CHR ''-'' \<or> hd s1 = CHR ''+'') then tl s1 else s1);
          ds = takeWhile isDigit s2
      in if ds = [] then None
         else Some ((if neg then - 1 else 1) * int (digitsVal ds)))"

text \<open>
  \<open>parseFloat(s)\<close> on a string of digits, points and minus signs, which is what the call
  sites pass after stripping every other character: an optional sign, digits, and
  optionally a point and more digits; with no digit on either side of the point the result
  is NaN, here \<open>None\<close>. Exponents and the literal Infinity cannot occur in such a string.
\<close>

definition parseFloat :: "string \<Rightarrow> real option" where
  "parseFloat s =
     (let neg = (s \<noteq> [] \<and> hd s = CHR ''-'');
          r = (if s \<noteq> [] \<and> (hd s = CHR ''-'' \<or> hd s = CHR ''+'') then tl s else s);
          ip = takeWhile isDigit r;
          r1 = dropWhile isDigit r;
          fp = (if r1 \<noteq> [] \<and> hd r1 = CHR ''.'' then takeWhile isDigit (tl r1) else [])
      in if ip = [] \<and> fp = [] then None
         else Some ((if neg then - 1 else 1) *
                    (real (digitsVal ip) + real (digitsVal fp) / 10 ^ length fp)))"

section \<open>Dates: the calendar of ECMAScript time values\<close>

definition msPerDay :: int where
  "msPerDay = 86400000"

definition DaysInYear :: "int \<Rightarrow> int" where
  "DaysInYear y =
     (if y mod 4 \<noteq> 0 then 365 else if y mod 100 \<noteq> 0 then 366
      else if y mod 400 \<noteq> 0 then 365 else 366)"

text \<open>The day number of the first day of year \<open>y\<close>; day 0 is 1 January 1970.\<close>

definition DayFromYear :: "int \<Rightarrow> int" where
  "DayFromYear y =
     365 * (y - 1970) + (y - 1969) div 4 - (y - 1901) div 100 + (y - 1601) div 400"

lemma div_step:
  fixes n k :: int
  assumes "0 < k"
  shows "(n + 1) div k = n div k + (if (n + 1) mod k = 0 then 1 else 0)"
proof -
  define q where "q = n div k"
  define r where "r = n mod k"
  have n: "n = k * q + r" by (simp add: q_def r_def)
  have r: "0 \<le> r" "r < k" using assms by (simp_all add: r_def)
  show ?thesis
  proof (cases "r + 1 < k")
    case True
    have e: "n + 1 = k * q + (r + 1)" using n by simp
    have "(n + 1) div k = q" using int_div_pos_eq [OF e] r True by simp
    moreover have "(n + 1) mod k = r + 1" using int_mod_pos_eq [OF e] r True by simp
    ultimately show ?thesis using r by (simp add: q_def)
  next
    case False
    then have e: "n + 1 = k * (q + 1) + 0" using n r by (simp add: algebra_simps)
    have "(n + 1) div k = q + 1" using int_div_pos_eq [OF e] assms by simp
    moreover have "(n + 1) mod k = 0" using int_mod_pos_eq [OF e] assms by simp
    ultimately show ?thesis by (simp add: q_def)
  qed
qed

lemma mod_shift: "(y + k * c) mod k = 0 \<longleftrightarrow> y mod k = 0" for y k c :: int
  by simp

lemma mod_100_4: "y mod 100 = 0 \<Longrightarrow> y mod 4 = 0" for y :: int
proof -
  assume "y mod 100 = 0"
  then have "100 dvd y" by (simp add: mod_eq_0_iff_dvd)
  moreover have "(4::int) dvd 100" by simp
  ultimately have "4 dvd y" by (rule dvd_trans [rotated])
  then show ?thesis by simp
qed

lemma mod_400_100: "y mod 400 = 0 \<Longrightarrow> y mod 100 = 0" for y :: int
proof -
  assume "y mod 400 = 0"
  then have "400 dvd y" by (simp add: mod_eq_0_iff_dvd)
  moreover have "(100::int) dvd 400" by simp
  ultimately have "100 dvd y" by (rule dvd_trans [rotated])
  then show ?thesis by simp
qed

lemma DayFromYear_Suc: "DayFromYear (y + 1) = DayFromYear y + DaysInYear y"
proof -
  have a: "(y + 1 - 1969) div 4 = (y - 1969) div 4 + (if y mod 4 = 0 then 1 else 0)"
  proof -
    have "(y - 1969) + 1 = y + 4 * (- 492)" by simp
    then have "((y - 1969) + 1) mod 4 = 0 \<longleftrightarrow> y mod 4 = 0"
      using mod_shift [of y 4 "- 492"] by simp
    moreover have "y + 1 - 1969 = (y - 1969) + 1" by simp
    ultimately show ?thesis using div_step [of 4 "y - 1969"] by simp
  qed
  have b: "(y + 1 - 1901) div 100 = (y - 1901) div 100 + (if y mod 100 = 0 then 1 else 0)"
  proof -
    have "(y - 1901) + 1 = y + 100 * (- 19)" by simp
    then have "((y - 1901) + 1) mod 100 = 0 \<longleftrightarrow> y mod 100 = 0"
      using mod_shift [of y 100 "- 19"] by simp
    moreover have "y + 1 - 1901 = (y - 1901) + 1" by simp
    ultimately show ?thesis using div_step [of 100 "y - 1901"] by simp
  qed
  have c: "(y + 1 - 1601) div 400 = (y - 1601) div 400 + (if y mod 400 = 0 then 1 else 0)"
  proof -
    have "(y - 1601) + 1 = y + 400 * (- 4)" by simp
    then have "((y - 1601) + 1) mod 400 = 0 \<longleftrightarrow> y mod 400 = 0"
      using mod_shift [of y 400 "- 4"] by simp
    moreover have "y + 1 - 1601 = (y - 1601) + 1" by simp
    ultimately show ?thesis using div_step [of 400 "y - 1601"] by simp
  qed
  show ?thesis
    unfolding DayFromYear_def DaysInYear_def a b c
    using mod_100_4 [of y] mod_400_100 [of y] by auto
qed

lemma DaysInYear_bounds: "365 \<le> DaysInYear y" "DaysInYear y \<le> 366"
  by (simp_all add: DaysInYear_def)

text \<open>
  The year of a day number is the largest year whose first day is not after it; the
  search walks up from a year that is not above it.
\<close>

function yearUp :: "int \<Rightarrow> int \<Rightarrow> int" where
  "yearUp d y = (if DayFromYear (y + 1) \<le> d then yearUp d (y + 1) else y)"
  by pat_completeness auto
termination
proof (relation "measure (\<lambda>(d, y). nat (d - DayFromYear y))")
  show "wf (measure (\<lambda>(d, y). nat (d - DayFromYear y)))" by simp
next
  fix d y :: int
  assume "DayFromYear (y + 1) \<le> d"
  then show "((d, y + 1), (d, y)) \<in> measure (\<lambda>(d, y). nat (d - DayFromYear y))"
    using DayFromYear_Suc [of y] DaysInYear_bounds(1) [of y] by simp
qed

declare yearUp.simps [simp del]

definition YearFromDay :: "int \<Rightarrow> int" where
  "YearFromDay d = yearUp d (1970 + (if 0 \<le> d then d div 366 else d div 365))"

definition InLeapYear :: "int \<Rightarrow> int" where
  "InLeapYear y = (if DaysInYear y = 366 then 1 else 0)"

text \<open>The day within the year on which month \<open>m\<close> (0 to 11) starts; entry 12 is the year's length.\<close>

definition monthStart :: "int \<Rightarrow> nat \<Rightarrow> int" where
  "monthStart leap m =
     [0, 31, 59 + leap, 90 + leap, 120 + leap, 151 + leap, 181 + leap, 212 + leap,
      243 + leap, 273 + leap, 304 + leap, 334 + leap, 365 + leap] ! m"

definition DayWithinYear :: "int \<Rightarrow> int" where
  "DayWithinYear d = d - DayFromYear (YearFromDay d)"

definition MonthFromDay :: "int \<Rightarrow> int" where
  "MonthFromDay d =
     (let dwy = DayWithinYear d; leap = InLeapYear (YearFromDay d)
      in if dwy < 31 then 0
         else if dwy < 59 + leap then 1
         else if dwy < 90 + leap then 2
         else if dwy < 120 + leap then 3
         else if dwy < 151 + leap then 4
         else if dwy < 181 + leap then 5
         else if dwy < 212 + leap then 6
         else if dwy < 243 + leap then 7
         else if dwy < 273 + leap then 8
         else if dwy < 304 + leap then 9
         else if dwy < 334 + leap then 10
         else 11)"

definition DateFromDay :: "int \<Rightarrow> int" where
  "DateFromDay d =
     DayWithinYear d - monthStart (InLeapYear (YearFromDay d)) (nat (MonthFromDay d)) + 1"

text \<open>\<open>MakeDay(year, month, date)\<close> for integer arguments: months beyond 0 to 11 carry into the year.\<close>

definition MakeDay :: "int \<Rightarrow> int \<Rightarrow> int \<Rightarrow> int" where
  "MakeDay year month dt =
     (let ym = year + month div 12; mn = month mod 12
      in DayFromYear ym + monthStart (InLeapYear ym) (nat mn) + dt - 1)"

definition TimeClip :: "int \<Rightarrow> jsDate" where
  "TimeClip t = (if \<bar>t\<bar> \<le> 8640000000000000 then Date t else InvalidDate)"

text \<open>\<open>new Date(Date.UTC(year, month, day))\<close>; a year from 0 to 99 means 1900 + year.\<close>

definition DateUTC :: "int \<Rightarrow> int \<Rightarrow> int \<Rightarrow> jsDate" where
  "DateUTC year month day =
     (let yr = (if 0 \<le> year \<and> year \<le> 99 then 1900 + year else year)
      in TimeClip (MakeDay yr month day * msPerDay))"

text \<open>The UTC getters; on the invalid date they give NaN, here \<open>None\<close>.\<close>

definition getUTCFullYear :: "jsDate \<Rightarrow> int option" where
  "getUTCFullYear date =
     (case date of Date t \<Rightarrow> Some (YearFromDay (t div msPerDay)) | InvalidDate \<Rightarrow> None)"

definition getUTCMonth :: "jsDate \<Rightarrow> int option" where
  "getUTCMonth date =
     (case date of Date t \<Rightarrow> Some (MonthFromDay (t div msPerDay)) | InvalidDate \<Rightarrow> None)"

definition getUTCDate :: "jsDate \<Rightarrow> int option" where
  "getUTCDate date =
     (case date of Date t \<Rightarrow> Some (DateFromDay (t div msPerDay)) | InvalidDate \<Rightarrow> None)"

section \<open>The date normalizer (utils.ts, parseDate and formatDate)\<close>

text \<open>
  A value read from a spreadsheet cell, or passed to \<open>parseDate\<close>: nothing, a string, a
  number or a \<open>Date\<close> object.
\<close>

datatype jsValue = Undefined | Str string | Num real | DateObj jsDate

definition allDigits :: "string \<Rightarrow> bool" where
  "allDigits s = list_all isDigit s"

definition allLetters :: "string \<Rightarrow> bool" where
  "allLetters s = list_all (\<lambda>c. isLower c \<or> isUpper c) s"

text \<open>
  The three regular expressions. Each one is anchored at both ends and asks for three
  groups between two separators that no group can contain, so it matches exactly when
  splitting at the separator gives three pieces of the right kind and length.
\<close>

text \<open>\<open>/^(\d{4})-(\d{1,2})-(\d{1,2})$/\<close>\<close>

definition matchPattern1 :: "string \<Rightarrow> (string \<times> string \<times> string) option" where
  "matchPattern1 s =
     (case split CHR ''-'' s of
        [p1, p2, p3] \<Rightarrow>
          if allDigits p1 \<and> length p1 = 4 \<and>
             allDigits p2 \<and> 1 \<le> length p2 \<and> length p2 \<le> 2 \<and>
             allDigits p3 \<and> 1 \<le> length p3 \<and> length p3 \<le> 2
          then Some (p1, p2, p3) else None
      | _ \<Rightarrow> None)"

text \<open>\<open>/^(\d{1,2})\/(\d{1,2})\/(\d{2,4})$/\<close>\<close>

definition matchPattern2 :: "string \<Rightarrow> (string \<times> string \<times> string) option" where
  "matchPattern2 s =
     (case split CHR ''/'' s of
        [p1, p2, p3] \<Rightarrow>
          if allDigits p1 \<and> 1 \<le> length p1 \<and> length p1 \<le> 2 \<and>
             allDigits p2 \<and> 1 \<le> length p2 \<and> length p2 \<le> 2 \<and>
             allDigits p3 \<and> 2 \<le> length p3 \<and> length p3 \<le> 4
          then Some (p1, p2, p3) else None
      | _ \<Rightarrow> None)"

text \<open>\<open>/^(\d{1,2})-([a-zA-Z]{3})-(\d{2,4})$/\<close>\<close>

definition matchPattern3 :: "string \<Rightarrow> (string \<times> string \<times> string) option" where
  "matchPattern3 s =
     (case split CHR ''-'' s of
        [p1, p2, p3] \<Rightarrow>
          if allDigits p1 \<and> 1 \<le> length p1 \<and> length p1 \<le> 2 \<and>
             allLetters p2 \<and> length p2 = 3 \<and>
             allDigits p3 \<and> 2 \<le> length p3 \<and> length p3 \<le> 4
          then Some (p1, p2, p3) else None
      | _ \<Rightarrow> None)"

definition monthMap :: "(string \<times> int) list" where
  "monthMap =
     [(''jan'', 0), (''feb'', 1), (''mar'', 2), (''apr'', 3), (''may'', 4), (''jun'', 5),
      (''jul'', 6), (''aug'', 7), (''sep'', 8), (''oct'', 9), (''nov'', 10), (''dec'', 11)]"

text \<open>The test that the date built from the fields has these very fields.\<close>

definition roundTrips :: "jsDate \<Rightarrow> int \<Rightarrow> int \<Rightarrow> int \<Rightarrow> bool" where
  "roundTrips date year month day =
     (getUTCFullYear date = Some year \<and> getUTCMonth date = Some month \<and> getUTCDate date = Some day)"

text \<open>
  One block per pattern: \<open>Some\<close> the date when the block returns, \<open>None\<close> when control
  falls through to the code after it. A field that parses to NaN fails the comparison.
\<close>

definition tryPattern1 :: "string \<Rightarrow> jsDate option" where
  "tryPattern1 dateStr =
     (case matchPattern1 dateStr of
        None \<Rightarrow> None
      | Some (p1, p2, p3) \<Rightarrow>
          (case (parseInt p1, parseInt p2, parseInt p3) of
             (Some year, Some m, Some day) \<Rightarrow>
               (let month = m - 1; date = DateUTC year month day
                in if roundTrips date year month day then Some date else None)
           | _ \<Rightarrow> None))"

definition tryPattern2 :: "string \<Rightarrow> jsDate option" where
  "tryPattern2 dateStr =
     (case matchPattern2 dateStr of
        None \<Rightarrow> None
      | Some (p1, p2, p3) \<Rightarrow>
          (case (parseInt p1, parseInt p2, parseInt p3) of
             (Some day, Some m, Some y) \<Rightarrow>
               (let month = m - 1;
                    year = (if y < 100 then y + 2000 else y);
                    date = DateUTC year month day
                in if roundTrips date year month day then Some date else None)
           | _ \<Rightarrow> None))"

definition tryPattern3 :: "string \<Rightarrow> jsDate option" where
  "tryPattern3 dateStr =
     (case matchPattern3 dateStr of
        None \<Rightarrow> None
      | Some (p1, p2, p3) \<Rightarrow>
          (case (parseInt p1, map_of monthMap (toLowerCase p2), parseInt p3) of
             (Some day, Some month, Some y) \<Rightarrow>
               (let year = (if y < 100 then y + 2000 else y);
                    date = DateUTC year month day
                in if roundTrips date year month day then Some date else None)
           | _ \<Rightarrow> None))"

text \<open>The date at UTC midnight with the local calendar fields of a time value.\<close>

definition utcOfLocal :: "host \<Rightarrow> int \<Rightarrow> jsDate" where
  "utcOfLocal h t = (case localFields h t of (y, m, d) \<Rightarrow> DateUTC y m d)"

text \<open>The part of \<open>parseDate\<close> that works on the string.\<close>

definition parseDateStr :: "host \<Rightarrow> string \<Rightarrow> jsDate option" where
  "parseDateStr h s =
     (let dateStr = trim s
      in if dateStr = [] then None
         else case tryPattern1 dateStr of
           Some date \<Rightarrow> Some date
         | None \<Rightarrow>
             (case tryPattern2 dateStr of
                Some date \<Rightarrow> Some date
              | None \<Rightarrow>
                  (case tryPattern3 dateStr of
                     Some date \<Rightarrow> Some date
                   | None \<Rightarrow>
                       (case parseDateString h dateStr of
                          Date t \<Rightarrow> Some (utcOfLocal h t)
                        | InvalidDate \<Rightarrow> None))))"

text \<open>\<open>parseDate\<close>; the result \<open>None\<close> is \<open>null\<close>.\<close>

definition parseDate :: "host \<Rightarrow> jsValue \<Rightarrow> jsDate option" where
  "parseDate h dateInput =
     (case dateInput of
        DateObj (Date t) \<Rightarrow> Some (utcOfLocal h t)
      | DateObj InvalidDate \<Rightarrow> None
      | Undefined \<Rightarrow> None
      | Str s \<Rightarrow> parseDateStr h s
      | Num x \<Rightarrow> parseDateStr h (numberToString h x))"

text \<open>The string of a number that may be NaN.\<close>

definition numStr :: "int option \<Rightarrow> string" where
  "numStr n = (case n of None \<Rightarrow> ''NaN'' | Some i \<Rightarrow> intToString i)"

definition formatDate :: "jsDate \<Rightarrow> string" where
  "formatDate date =
     (let year = getUTCFullYear date;
          month = padStart2 (numStr (map_option (\<lambda>m. m + 1) (getUTCMonth date)));
          day = padStart2 (numStr (getUTCDate date))
      in numStr year @ ''-'' @ month @ ''-'' @ day)"

text \<open>
  Calendar days and their canonical string, for stating the round-trip law: month \<open>m\<close>
  runs from 1 to 12.
\<close>

definition DaysInMonth :: "int \<Rightarrow> int \<Rightarrow> int" where
  "DaysInMonth y m =
     [31, 28 + InLeapYear y, 31, 30, 31, 30, 31, 31, 30, 31, 30, 31] ! nat (m - 1)"

definition validDay :: "int \<Rightarrow> int \<Rightarrow> int \<Rightarrow> bool" where
  "validDay y m d = (1 \<le> m \<and> m \<le> 12 \<and> 1 \<le> d \<and> d \<le> DaysInMonth y m)"

definition padStart4 :: "string \<Rightarrow> string" where
  "padStart4 s = replicate (4 - length s) CHR ''0'' @ s"

definition canonical :: "int \<Rightarrow> int \<Rightarrow> int \<Rightarrow> string" where
  "canonical y m d =
     padStart4 (intToString y) @ ''-'' @ padStart2 (intToString m) @ ''-'' @ padStart2 (intToString d)"

text \<open>
  The year, month (1 to 12) and day that a string writes, as each of the three patterns
  reads it: year-month-day for the first, day/month/year for the second, day-name-year
  for the third, where a year below 100 of the second and third means 2000 + year. Such
  fields are a calendar day when month and day exist in that year; the year must be 100
  or more, since \<open>Date.UTC\<close> reads a year below 100 as 1900 + year.
\<close>

definition century :: "int \<Rightarrow> int" where
  "century y = (if y < 100 then y + 2000 else y)"

definition written1 :: "string \<Rightarrow> (int \<times> int \<times> int) option" where
  "written1 s =
     (case matchPattern1 s of
        None \<Rightarrow> None
      | Some (p1, p2, p3) \<Rightarrow> Some (int (digitsVal p1), int (digitsVal p2), int (digitsVal p3)))"

definition written2 :: "string \<Rightarrow> (int \<times> int \<times> int) option" where
  "written2 s =
     (case matchPattern2 s of
        None \<Rightarrow> None
      | Some (p1, p2, p3) \<Rightarrow>
          Some (century (int (digitsVal p3)), int (digitsVal p2), int (digitsVal p1)))"

definition written3 :: "string \<Rightarrow> (int \<times> int \<times> int) option" where
  "written3 s =
     (case matchPattern3 s of
        None \<Rightarrow> None
      | Some (p1, p2, p3) \<Rightarrow>
          (case map_of monthMap (toLowerCase p2) of
             None \<Rightarrow> None
           | Some m \<Rightarrow> Some (century (int (digitsVal p3)), m + 1, int (digitsVal p1))))"

definition calendarDay :: "(int \<times> int \<times> int) option \<Rightarrow> bool" where
  "calendarDay w = (case w of None \<Rightarrow> False | Some (y, m, d) \<Rightarrow> 100 \<le> y \<and> validDay y m d)"

definition firstDay :: "string \<Rightarrow> (int \<times> int \<times> int) option" where
  "firstDay s =
     (if calendarDay (written1 s) then written1 s
      else if calendarDay (written2 s) then written2 s
      else if calendarDay (written3 s) then written3 s
      else None)"

text \<open>
  An example host for evaluation. Its local time is UTC, it compares strings by the
  codes of their characters, and its generic date parsing accepts the two forms the
  sources rely on: the ISO date \<open>YYYY-MM-DD\<close> and the US date \<open>M/D/YYYY\<close> of a valid
  calendar day.
\<close>

definition exampleParse :: "string \<Rightarrow> jsDate" where
  "exampleParse s =
     (case split CHR ''-'' s of
        [p1, p2, p3] \<Rightarrow>
          (case (parseInt p1, parseInt p2, parseInt p3) of
             (Some y, Some m, Some d) \<Rightarrow>
               if allDigits p1 \<and> length p1 = 4 \<and> allDigits p2 \<and> length p2 = 2 \<and>
                  allDigits p3 \<and> length p3 = 2 \<and> validDay y m d
               then Date (MakeDay y (m - 1) d * msPerDay) else InvalidDate
           | _ \<Rightarrow> InvalidDate)
      | _ \<Rightarrow>
          (case split CHR ''/'' s of
             [p1, p2, p3] \<Rightarrow>
               (case (parseInt p1, parseInt p2, parseInt p3) of
                  (Some m, Some d, Some y) \<Rightarrow>
                    if allDigits p1 \<and> 1 \<le> length p1 \<and> length p1 \<le> 2 \<and>
                       allDigits p2 \<and> 1 \<le> length p2 \<and> length p2 \<le> 2 \<and>
                       allDigits p3 \<and> length p3 = 4 \<and> validDay y m d
                    then Date (MakeDay y (m - 1) d * msPerDay) else InvalidDate
                | _ \<Rightarrow> InvalidDate)
           | _ \<Rightarrow> InvalidDate))"

definition exampleHost :: host where
  "exampleHost =
     \<lparr>parseDateString = exampleParse,
      localFields = (\<lambda>t. (YearFromDay (t div msPerDay), MonthFromDay (t div msPerDay),
                           DateFromDay (t div msPerDay))),
      dateToString = (\<lambda>d. case d of InvalidDate \<Rightarrow> ''Invalid Date'' | Date t \<Rightarrow> formatDate (Date t)),
      numberToString = (\<lambda>x. intToString \<lfloor>x\<rfloor>),
      localeCompare = (\<lambda>a b. if a < b then - 1 else if a = b then 0 else 1)\<rparr>"

text \<open>
  The written forms of a calendar day's fields: a day or month number in one or two
  digits (a leading zero allowed), a year in four digits, a year of this century in two
  digits, and a month as a three-letter English abbreviation in any mix of cases.
\<close>

definition fieldRep :: "string \<Rightarrow> int \<Rightarrow> bool" where
  "fieldRep s v = (allDigits s \<and> 1 \<le> length s \<and> length s \<le> 2 \<and> int (digitsVal s) = v)"

definition yearRep4 :: "string \<Rightarrow> int \<Rightarrow> bool" where
  "yearRep4 s y = (allDigits s \<and> length s = 4 \<and> int (digitsVal s) = y)"

definition yearRep2 :: "string \<Rightarrow> int \<Rightarrow> bool" where
  "yearRep2 s y = (allDigits s \<and> length s = 2 \<and> 2000 + int (digitsVal s) = y)"

definition monthRep :: "string \<Rightarrow> int \<Rightarrow> bool" where
  "monthRep s m = (length s = 3 \<and> map_of monthMap (toLowerCase s) = Some (m - 1))"

section \<open>Transactions (types.ts)\<close>

datatype txType = Debit | Credit

text \<open>
  \<open>StagedTransactionInput\<close> is \<open>Transaction\<close> without \<open>id\<close> and \<open>user_id\<close>; the record of
  transactions extends the one of staged inputs, so a function on staged inputs takes a
  transaction too.
\<close>

record stagedTransactionInput =
  date :: string
  description :: string
  amount :: real
  "type" :: txType
  category :: string
  recurring :: "bool option"

record transaction = stagedTransactionInput +
  id' :: "int option"
  user_id :: "string option"

section \<open>The statement parser (utils.ts, processXlsData)\<close>

text \<open>
  The model starts from \<open>aoa\<close>, the array of rows (each an array of cells) that the
  spreadsheet decoder returns for the first sheet; reading the file and the check that
  the decoder is loaded come before it. The two errors it can throw are values:
  \<open>HeadersNotFound\<close> stands for the message that no row with the headers Date and
  Narration was found, \<open>RequiredColumnsMissing\<close> for the message that not all of Date,
  Narration, Withdrawal Amt. and Deposit Amt. are in the header row.
\<close>

datatype xlsError = HeadersNotFound | RequiredColumnsMissing

text \<open>Truthiness and \<open>String(v)\<close> of a cell value.\<close>

definition truthy :: "jsValue \<Rightarrow> bool" where
  "truthy v = (case v of Undefined \<Rightarrow> False | Str s \<Rightarrow> s \<noteq> [] | Num x \<Rightarrow> x \<noteq> 0 | DateObj d \<Rightarrow> True)"

definition toStringJs :: "host \<Rightarrow> jsValue \<Rightarrow> string" where
  "toStringJs h v =
     (case v of Undefined \<Rightarrow> ''undefined'' | Str s \<Rightarrow> s | Num x \<Rightarrow> numberToString h x
      | DateObj d \<Rightarrow> dateToString h d)"

text \<open>\<open>String(v || dflt)\<close>\<close>

definition stringOr :: "host \<Rightarrow> jsValue \<Rightarrow> string \<Rightarrow> string" where
  "stringOr h v dflt = (if truthy v then toStringJs h v else dflt)"

text \<open>\<open>row[i]\<close>: reading past the end of a row gives \<open>undefined\<close>.\<close>

definition cellAt :: "jsValue list \<Rightarrow> nat \<Rightarrow> jsValue" where
  "cellAt row i = (if i < length row then row ! i else Undefined)"

text \<open>\<open>xs.indexOf(x)\<close>; the result \<open>None\<close> is -1.\<close>

fun indexOf :: "'a list \<Rightarrow> 'a \<Rightarrow> nat option" where
  "indexOf [] x = None"
| "indexOf (y # ys) x = (if y = x then Some 0 else map_option Suc (indexOf ys x))"

definition headerCells :: "host \<Rightarrow> jsValue list \<Rightarrow> string list" where
  "headerCells h row = map (\<lambda>cell. toLowerCase (trim (stringOr h cell []))) row"

text \<open>The search for the header row: the index of the first row, from row \<open>i\<close> on, that holds both headers.\<close>

fun findHeaderRow :: "host \<Rightarrow> jsValue list list \<Rightarrow> nat \<Rightarrow> nat option" where
  "findHeaderRow h [] i = None"
| "findHeaderRow h (r # rs) i =
     (let row = headerCells h r
      in if ''date'' \<in> set row \<and> ''narration'' \<in> set row then Some i
         else findHeaderRow h rs (i + 1))"

text \<open>\<open>s.replace(/[^0-9.-]/g, '')\<close>\<close>

definition stripNumeric :: "string \<Rightarrow> string" where
  "stripNumeric s = filter (\<lambda>c. isDigit c \<or> c = CHR ''.'' \<or> c = CHR ''-'') s"

text \<open>\<open>parseFloat(String(v || '0').replace(/[^0-9.-]/g, '')) || 0\<close>\<close>

definition parseAmount :: "host \<Rightarrow> jsValue \<Rightarrow> real" where
  "parseAmount h v =
     (case parseFloat (stripNumeric (stringOr h v ''0'')) of None \<Rightarrow> 0 | Some x \<Rightarrow> x)"

text \<open>The function mapped over the data rows; \<open>None\<close> is the \<open>null\<close> that the filter drops.\<close>

definition processRow :: "host \<Rightarrow> (string \<times> string) list \<Rightarrow> nat \<Rightarrow> nat \<Rightarrow> nat \<Rightarrow> nat \<Rightarrow>
    jsValue list \<Rightarrow> stagedTransactionInput option" where
  "processRow h categorizationMap dateIndex narrationIndex withdrawalIndex depositIndex row =
     (if length row = 0 \<or> startsWith (trim (stringOr h (cellAt row 0) [])) ''*'' then None
      else
        let dateInput = cellAt row dateIndex;
            narration = cellAt row narrationIndex;
            debitStr = cellAt row withdrawalIndex;
            creditStr = cellAt row depositIndex
        in if \<not> truthy dateInput \<or> \<not> truthy narration \<or> trim (toStringJs h narration) = [] then None
           else case parseDate h dateInput of
             None \<Rightarrow> None
           | Some parsedDate \<Rightarrow>
               let debit = parseAmount h debitStr;
                   credit = parseAmount h creditStr
               in case (if credit > 0 then Some credit
                        else if debit > 0 then Some (- debit)
                        else None) of
                    None \<Rightarrow> None
                  | Some amt \<Rightarrow>
                      Some \<lparr>date = formatDate parsedDate,
                            description = trim (toStringJs h narration),
                            amount = amt,
                            type = (if amt > 0 then Credit else Debit),
                            category = getCategory categorizationMap (toStringJs h narration),
                            recurring = None\<rparr>)"

definition processXlsData :: "host \<Rightarrow> (string \<times> string) list \<Rightarrow> jsValue list list \<Rightarrow>
    xlsError + stagedTransactionInput list" where
  "processXlsData h categorizationMap aoa =
     (if length aoa = 0 then Inr []
      else case findHeaderRow h aoa 0 of
        None \<Rightarrow> Inl HeadersNotFound
      | Some headerRowIndex \<Rightarrow>
          let headerRow = headerCells h (aoa ! headerRowIndex);
              dataRows = drop (headerRowIndex + 1) aoa
          in case (indexOf headerRow ''date'', indexOf headerRow ''narration'',
                   indexOf headerRow ''withdrawal amt.'', indexOf headerRow ''deposit amt.'') of
               (Some dateIndex, Some narrationIndex, Some withdrawalIndex, Some depositIndex) \<Rightarrow>
                 Inr (List.map_filter
                        (processRow h categorizationMap dateIndex narrationIndex withdrawalIndex depositIndex)
                        dataRows)
             | _ \<Rightarrow> Inl RequiredColumnsMissing)"

text \<open>
  What the properties of the parser are stated with: a row holds the two headers that
  the search looks for; row \<open>i\<close> is the first such row of the sheet; \<open>i\<close> is the first
  position of \<open>x\<close> in a list.
\<close>

definition holdsHeaders :: "host \<Rightarrow> jsValue list \<Rightarrow> bool" where
  "holdsHeaders h row =
     (''date'' \<in> set (headerCells h row) \<and> ''narration'' \<in> set (headerCells h row))"

definition firstHeaderAt :: "host \<Rightarrow> jsValue list list \<Rightarrow> nat \<Rightarrow> bool" where
  "firstHeaderAt h aoa i =
     (i < length aoa \<and> holdsHeaders h (aoa ! i) \<and> (\<forall>j < i. \<not> holdsHeaders h (aoa ! j)))"

definition firstIndex :: "'a list \<Rightarrow> 'a \<Rightarrow> nat \<Rightarrow> bool" where
  "firstIndex xs x i = (i < length xs \<and> xs ! i = x \<and> (\<forall>j < i. xs ! j \<noteq> x))"

text \<open>
  A sheet with three rows before the header, a withdrawal, a separator row, a deposit
  and a row with neither amount.
\<close>

definition sampleSheet :: "jsValue list list" where
  "sampleSheet =
     [[Str ''HDFC BANK Ltd.''], [], [Str ''Statement of account''],
      [Str ''Date'', Str ''Narration'', Str ''Chq./Ref.No.'', Str ''Withdrawal Amt.'', Str ''Deposit Amt.''],
      [Str ''01/03/2025'', Str ''ATM WDL'', Str ''123'', Str ''5,000.00'', Str []],
      [Str ''********''],
      [Str ''02/03/2025'', Str ''SALARY'', Undefined, Undefined, Str ''100000''],
      [Str ''03/03/2025'', Str ''NOTHING'', Undefined, Undefined, Undefined]]"

text \<open>A sheet with no header row, and one whose header row has no withdrawal column.\<close>

definition titleOnly :: "jsValue list list" where
  "titleOnly = [[Str ''Statement of account''], [Str ''Date'', Str ''Amount'']]"

definition shortHeader :: "jsValue list list" where
  "shortHeader = [[Str ''Statement of account''], [Str ''Date'', Str '' NARRATION '', Str ''Deposit Amt.'']]"

section \<open>The dedup filter (domain/transactions/dedupe.ts)\<close>

definition makeTransactionKey :: "host \<Rightarrow> 'a stagedTransactionInput_scheme \<Rightarrow> string" where
  "makeTransactionKey h t =
     (let date = trim (date t);
          desc = toLowerCase (trim (description t));
          amt = toFixed h 2 (amount t)
      in date @ ''|'' @ desc @ ''|'' @ amt)"

record 'a dedupeResult =
  newOnes :: "'a stagedTransactionInput_scheme list"
  duplicateCount :: nat

text \<open>The loop of \<open>filterDuplicateStaged\<close>, with its two accumulators.\<close>

fun filterLoop :: "host \<Rightarrow> string set \<Rightarrow> 'a stagedTransactionInput_scheme list \<Rightarrow>
    'a stagedTransactionInput_scheme list \<Rightarrow> nat \<Rightarrow> 'a dedupeResult" where
  "filterLoop h existingKeys [] new dups = \<lparr>newOnes = new, duplicateCount = dups\<rparr>"
| "filterLoop h existingKeys (t # staged) new dups =
     (let key = makeTransactionKey h t
      in if key \<in> existingKeys then filterLoop h existingKeys staged new (dups + 1)
         else filterLoop h existingKeys staged (new @ [t]) dups)"

definition filterDuplicateStaged :: "host \<Rightarrow> 'a stagedTransactionInput_scheme list \<Rightarrow> string set \<Rightarrow>
    'a dedupeResult" where
  "filterDuplicateStaged h staged existingKeys = filterLoop h existingKeys staged [] 0"

text \<open>
  An amount rendered with two decimals: the sign, then the magnitude rounded to
  hundredths (a tie goes up) as its integer part, a point and two fraction digits.
\<close>

definition twoDecimals :: "real \<Rightarrow> string" where
  "twoDecimals x =
     (let n = nat \<lfloor>\<bar>x\<bar> * 100 + 1 / 2\<rfloor>
      in (if x < 0 then ''-'' else []) @ digitsOf (n div 100) @ ''.'' @
         [digitChar (n div 10 mod 10), digitChar (n mod 10)])"

text \<open>The transaction of dedupe.test.ts.\<close>

definition base :: stagedTransactionInput where
  "base = \<lparr>date = ''2025-03-01'', description = ''Test Item'', amount = 123456 / 1000,
            type = Debit, category = ''OTHER'', recurring = None\<rparr>"

section \<open>Maps, sorting and sums of the analytics engine\<close>

text \<open>
  A JavaScript \<open>Map\<close> is kept as the list of its entries in insertion order. \<open>upsert\<close>
  is the idiom "get the entry or start from \<open>init\<close>, change it, store it": an existing
  key keeps its place, a new key goes to the end.
\<close>

fun upsert :: "'k \<Rightarrow> 'v \<Rightarrow> ('v \<Rightarrow> 'v) \<Rightarrow> ('k \<times> 'v) list \<Rightarrow> ('k \<times> 'v) list" where
  "upsert k init f [] = [(k, f init)]"
| "upsert k init f ((k', v) # m) =
     (if k' = k then (k', f v) # m else (k', v) # upsert k init f m)"

text \<open>
  \<open>xs.sort(cmp)\<close>: the sort is stable, and for a consistent comparator its result is the
  one that insertion from the right gives.
\<close>

fun insertBy :: "('a \<Rightarrow> 'a \<Rightarrow> 'b::{zero, ord}) \<Rightarrow> 'a \<Rightarrow> 'a list \<Rightarrow> 'a list" where
  "insertBy cmp x [] = [x]"
| "insertBy cmp x (y # ys) = (if cmp x y \<le> 0 then x # y # ys else y # insertBy cmp x ys)"

definition sortBy :: "('a \<Rightarrow> 'a \<Rightarrow> 'b::{zero, ord}) \<Rightarrow> 'a list \<Rightarrow> 'a list" where
  "sortBy cmp xs = foldr (insertBy cmp) xs []"

text \<open>\<open>values.reduce((a, b) => a + b, 0)\<close>, and the mean and population variance built on it.\<close>

definition sumOf :: "real list \<Rightarrow> real" where
  "sumOf values = foldl (\<lambda>a b. a + b) 0 values"

definition meanOf :: "real list \<Rightarrow> real" where
  "meanOf values = sumOf values / real (length values)"

definition varianceOf :: "real list \<Rightarrow> real" where
  "varianceOf values =
     foldl (\<lambda>acc v. acc + (v - meanOf values) ^ 2) 0 values / real (length values)"

section \<open>Category totals (domain/analytics/summarize.ts, aggregateCategories)\<close>

record categorySummary =
  cs_category :: string
  cs_expense :: real
  cs_income :: real

text \<open>The labels of a transaction: \<open>(t.category || 'Other').split('-').filter(Boolean)\<close>, or Other when that is empty.\<close>

definition labelsOf :: "'a stagedTransactionInput_scheme \<Rightarrow> string list" where
  "labelsOf t =
     (let raw = (if category t \<noteq> [] then category t else ''Other'');
          categories = filter (\<lambda>c. c \<noteq> []) (split CHR ''-'' raw)
      in if length categories = 0 then [''Other''] else categories)"

definition addToEntry :: "'a stagedTransactionInput_scheme \<Rightarrow> categorySummary \<Rightarrow> categorySummary" where
  "addToEntry t entry =
     (if type t = Credit then entry\<lparr>cs_income := cs_income entry + amount t\<rparr>
      else entry\<lparr>cs_expense := cs_expense entry + \<bar>amount t\<bar>\<rparr>)"

definition addLabel :: "'a stagedTransactionInput_scheme \<Rightarrow> (string \<times> categorySummary) list \<Rightarrow> string \<Rightarrow>
    (string \<times> categorySummary) list" where
  "addLabel t catMap c =
     upsert c \<lparr>cs_category = c, cs_expense = 0, cs_income = 0\<rparr> (addToEntry t) catMap"

definition aggregateCategories :: "'a stagedTransactionInput_scheme list \<Rightarrow> categorySummary list" where
  "aggregateCategories transactions =
     (let catMap = foldl (\<lambda>catMap t. foldl (addLabel t) catMap (labelsOf t)) [] transactions
      in sortBy (\<lambda>a b. cs_expense b - cs_expense a) (map snd catMap))"

text \<open>
  What a list of transactions gives a label: each debit its absolute amount, each credit
  its amount, once for every time the label stands in the transaction's category.
\<close>

definition labelExpense :: "'a stagedTransactionInput_scheme list \<Rightarrow> string \<Rightarrow> real" where
  "labelExpense ts c =
     sum_list (map (\<lambda>t. if type t = Credit then 0
                         else \<bar>amount t\<bar> * real (count_list (labelsOf t) c)) ts)"

definition labelIncome :: "'a stagedTransactionInput_scheme list \<Rightarrow> string \<Rightarrow> real" where
  "labelIncome ts c =
     sum_list (map (\<lambda>t. if type t = Credit then amount t * real (count_list (labelsOf t) c)
                         else 0) ts)"

text \<open>The transactions of summarize.test.ts.\<close>

definition sample :: "stagedTransactionInput list" where
  "sample =
     [\<lparr>date = ''2025-01-05'', description = ''Salary January'', amount = 100000, type = Credit,
       category = ''SALARY'', recurring = None\<rparr>,
      \<lparr>date = ''2025-01-10'', description = ''Groceries'', amount = - 3500, type = Debit,
       category = ''GROCERY SHOPPING'', recurring = None\<rparr>,
      \<lparr>date = ''2025-02-02'', description = ''Salary Feb'', amount = 100000, type = Credit,
       category = ''SALARY'', recurring = None\<rparr>,
      \<lparr>date = ''2025-02-11'', description = ''Restaurant'', amount = - 4200, type = Debit,
       category = ''FOOD'', recurring = None\<rparr>,
      \<lparr>date = ''2025-02-15'', description = ''Combined Expense'', amount = - 1000, type = Debit,
       category = ''FOOD-GROCERY SHOPPING'', recurring = None\<rparr>]"

text \<open>The totals that a map of entries holds for a label; nothing held counts as 0.\<close>

definition entryExpense :: "(string \<times> categorySummary) list \<Rightarrow> string \<Rightarrow> real" where
  "entryExpense m c = (case map_of m c of None \<Rightarrow> 0 | Some e \<Rightarrow> cs_expense e)"

definition entryIncome :: "(string \<times> categorySummary) list \<Rightarrow> string \<Rightarrow> real" where
  "entryIncome m c = (case map_of m c of None \<Rightarrow> 0 | Some e \<Rightarrow> cs_income e)"

text \<open>Every entry of the map is stored under its own category.\<close>

definition keyed :: "(string \<times> categorySummary) list \<Rightarrow> bool" where
  "keyed m = (\<forall>(k, e) \<in> set m. cs_category e = k)"

section \<open>Anomalies (domain/analytics/anomalies.ts)\<close>

record categoryStats =
  mean :: real
  std :: real















section \<open>The forecast (domain/analytics/forecast.ts)\<close>












text \<open>
  What the properties of the forecast are stated with. The month key of a transaction is
  the first seven characters of its date; the keys of a list are its distinct month keys
  in the order of their first occurrence, and the sorted keys are these in the order of
  the host's string comparison, whose last one is the latest month. The income of a month
  is the sum of the amounts from 0 up of its transactions, its expense the sum of the
  absolute values of the negative ones. A month key is well formed when it is four digits,
  a hyphen and two digits.
\<close>

definition monthKey :: "'a stagedTransactionInput_scheme \<Rightarrow> string" where
  "monthKey t = take 7 (date t)"




definition monthIncome :: "'a stagedTransactionInput_scheme list \<Rightarrow> string \<Rightarrow> real" where
  "monthIncome ts k = sum_list (map amount (filter (\<lambda>t. monthKey t = k \<and> amount t \<ge> 0) ts))"

definition monthExpense :: "'a stagedTransactionInput_scheme list \<Rightarrow> string \<Rightarrow> real" where
  "monthExpense ts k =
     sum_list (map (\<lambda>t. \<bar>amount t\<bar>) (filter (\<lambda>t. monthKey t = k \<and> amount t < 0) ts))"











section \<open>Recurring payments (domain/analytics/recurring.ts)\<close>

record recurringPattern =
  rp_key :: string
  rp_count :: nat
  avgIntervalDays :: real
  lastDate :: string

record recurringResult =
  patterns :: "recurringPattern list"
  recurringIds :: "int list"

text \<open>\<open>s.replace(/\s+/g, ' ')\<close>: every run of white space becomes one blank.\<close>

function collapseSpaces :: "string \<Rightarrow> string" where
  "collapseSpaces [] = []"
| "collapseSpaces (c # cs) =
     (if isSpace c then CHR '' '' # collapseSpaces (dropWhile isSpace cs)
      else c # collapseSpaces cs)"
  by pat_completeness auto
termination
proof (relation "measure length")
  show "wf (measure length)" by simp
next
  fix c :: char and cs :: string
  show "(dropWhile isSpace cs, c # cs) \<in> measure length"
    using length_dropWhile_le [of isSpace cs] by simp
next
  fix c :: char and cs :: string
  show "(cs, c # cs) \<in> measure length" by simp
qed

text \<open>\<open>normalizeDescription\<close>; the first replacement is \<open>/[^a-z0-9\s]/g\<close> by a blank.\<close>

definition normalizeDescription :: "string \<Rightarrow> string" where
  "normalizeDescription desc =
     trim (collapseSpaces
       (map (\<lambda>c. if isLower c \<or> isDigit c \<or> isSpace c then c else CHR '' '') (toLowerCase desc)))"

text \<open>
  The loop over the sorted list that collects the intervals: the days from one
  transaction to the next, kept when positive. A date that the host cannot read has the
  time NaN, and no comparison with NaN holds.
\<close>

fun intervalsOf :: "host \<Rightarrow> 'a stagedTransactionInput_scheme list \<Rightarrow> real list" where
  "intervalsOf h (before # current # later) =
     (case (parseDateString h (date before), parseDateString h (date current)) of
        (Date tp, Date tc) \<Rightarrow>
          (let diff = (real_of_int tc - real_of_int tp) / 86400000
           in if diff > 0 then diff # intervalsOf h (current # later) else intervalsOf h (current # later))
      | _ \<Rightarrow> intervalsOf h (current # later))"
| "intervalsOf h _ = []"

text \<open>
  The body of the loop over the groups: the pattern that a group adds, if any. The
  coefficient of variation is infinite, here \<open>None\<close>, when the average is not positive.
  \<open>Math.round\<close> rounds to the nearest integer, a half upwards.
\<close>

definition groupPattern :: "host \<Rightarrow> string \<Rightarrow> transaction list \<Rightarrow> (recurringPattern \<times> transaction list) option" where
  "groupPattern h key list =
     (if length list < 3 then None
      else
        let list' = sortBy (\<lambda>a b. localeCompare h (date a) (date b)) list;
            intervals = intervalsOf h list'
        in if length intervals = 0 then None
           else
             let avg = sumOf intervals / real (length intervals);
                 variance = foldl (\<lambda>s v. s + (v - avg) ^ 2) 0 intervals / real (length intervals);
                 std = sqrt variance;
                 cov = (if avg > 0 then Some (std / avg) else None)
             in case cov of
                  None \<Rightarrow> None
                | Some c \<Rightarrow>
                    if c < 1 / 2 then
                      Some (\<lparr>rp_key = key, rp_count = length list',
                             avgIntervalDays = real_of_int \<lfloor>avg * 10 + 1 / 2\<rfloor> / 10,
                             lastDate = date (last list')\<rparr>, list')
                    else None)"

text \<open>\<open>recurringIds.add(tx.id)\<close> for every transaction of the list that has an id.\<close>

definition addIds :: "int list \<Rightarrow> transaction list \<Rightarrow> int list" where
  "addIds ids list = foldl (\<lambda>ids tx. case id' tx of None \<Rightarrow> ids | Some i \<Rightarrow> setAdd i ids) ids list"

definition detectRecurring :: "host \<Rightarrow> transaction list \<Rightarrow> recurringResult" where
  "detectRecurring h transactions =
     (let groups = foldl (\<lambda>groups t. upsert (normalizeDescription (description t)) [] (\<lambda>l. l @ [t]) groups)
                     [] transactions
      in foldl (\<lambda>r (key, list).
                  case groupPattern h key list of
                    None \<Rightarrow> r
                  | Some (p, list') \<Rightarrow>
                      \<lparr>patterns = patterns r @ [p], recurringIds = addIds (recurringIds r) list'\<rparr>)
           \<lparr>patterns = [], recurringIds = []\<rparr> groups)"

text \<open>
  What the properties of the detector are stated with. The group of a key is the list of
  the transactions whose normalized description is the key, and the keys of a list are
  its distinct normalized descriptions in the order of their first occurrence. The
  occurrences of a key are its group in the order of the host's comparison of the date
  strings. The gap between two transactions is the number of days from the first to the
  second, when the host reads both dates; the gaps of a list are the positive ones among
  the gaps between neighbours.
\<close>

definition groupOf :: "transaction list \<Rightarrow> string \<Rightarrow> transaction list" where
  "groupOf ts k = filter (\<lambda>t. normalizeDescription (description t) = k) ts"

definition groupKeys :: "transaction list \<Rightarrow> string list" where
  "groupKeys ts = rev (remdups (rev (map (\<lambda>t. normalizeDescription (description t)) ts)))"

definition occurrences :: "host \<Rightarrow> transaction list \<Rightarrow> string \<Rightarrow> transaction list" where
  "occurrences h ts k = sortBy (\<lambda>a b. localeCompare h (date a) (date b)) (groupOf ts k)"

definition dayGap :: "host \<Rightarrow> 'a stagedTransactionInput_scheme \<Rightarrow> 'a stagedTransactionInput_scheme \<Rightarrow> real option" where
  "dayGap h a b =
     (case (parseDateString h (date a), parseDateString h (date b)) of
        (Date ta, Date tb) \<Rightarrow> Some ((real_of_int tb - real_of_int ta) / 86400000)
      | _ \<Rightarrow> None)"

definition positiveGaps :: "host \<Rightarrow> 'a stagedTransactionInput_scheme list \<Rightarrow> real list" where
  "positiveGaps h xs =
     List.map_filter (\<lambda>(a, b). case dayGap h a b of
                                  None \<Rightarrow> None
                                | Some g \<Rightarrow> if g > 0 then Some g else None)
       (zip xs (tl xs))"

text \<open>
  A key is recurring: its group has at least three members, there is a positive gap
  between neighbouring occurrences, and the population standard deviation of the positive
  gaps is less than half their mean. The pattern of a key.
\<close>

definition recurringKey :: "host \<Rightarrow> transaction list \<Rightarrow> string \<Rightarrow> bool" where
  "recurringKey h ts k =
     (3 \<le> length (groupOf ts k)
      \<and> positiveGaps h (occurrences h ts k) \<noteq> []
      \<and> sqrt (varianceOf (positiveGaps h (occurrences h ts k)))
            / meanOf (positiveGaps h (occurrences h ts k)) < 1 / 2)"

definition patternOf :: "host \<Rightarrow> transaction list \<Rightarrow> string \<Rightarrow> recurringPattern" where
  "patternOf h ts k =
     \<lparr>rp_key = k, rp_count = length (groupOf ts k),
      avgIntervalDays = real_of_int \<lfloor>meanOf (positiveGaps h (occurrences h ts k)) * 10 + 1 / 2\<rfloor> / 10,
      lastDate = date (last (occurrences h ts k))\<rparr>"

text \<open>
  The time that the host reads from the date of a transaction. The host's comparison of
  the date strings is chronological on a list when it reads every date of the list and
  orders the strings as it orders their times.
\<close>

definition readTime :: "host \<Rightarrow> 'a stagedTransactionInput_scheme \<Rightarrow> int" where
  "readTime h t = timeValue (parseDateString h (date t))"

definition chronological :: "host \<Rightarrow> transaction list \<Rightarrow> bool" where
  "chronological h ts =
     (\<forall>a \<in> set ts. \<forall>b \<in> set ts.
        parseDateString h (date a) \<noteq> InvalidDate
      \<and> ((localeCompare h (date a) (date b) \<le> 0) = (readTime h a \<le> readTime h b)))"

text \<open>
  A payment of 649 on a date, with an id and a description; three monthly payments to one
  payee, written in three ways and not in the order of their dates, and two payments to
  another payee.
\<close>

definition payment :: "int \<Rightarrow> string \<Rightarrow> string \<Rightarrow> transaction" where
  "payment i d desc =
     \<lparr>date = d, description = desc, amount = - 649, type = Debit, category = ''ENTERTAINMENT'',
      recurring = None, id' = Some i, user_id = None\<rparr>"

definition monthlyPayments :: "transaction list" where
  "monthlyPayments = [payment 1 ''2025-03-15'' ''NETFLIX.COM'', payment 2 ''2025-01-15'' ''Netflix com'',
              payment 3 ''2025-02-15'' ''netflix  com '']"

definition twoPayments :: "transaction list" where
  "twoPayments = [payment 4 ''2025-01-03'' ''Gym'', payment 5 ''2025-02-03'' ''GYM'']"

section \<open>Properties of the categorizer\<close>

lemma startsWith_iff: "startsWith s k \<longleftrightarrow> (\<exists>b. s = k @ b)"
  by (induction s k rule: startsWith.induct) auto

lemma includes_iff: "includes' s k \<longleftrightarrow> (\<exists>a b. s = a @ k @ b)"
proof (induction s)
  case Nil
  then show ?case by simp
next
  case (Cons c cs)
  show ?case
  proof
    assume "includes' (c # cs) k"
    then consider "startsWith (c # cs) k" | "includes' cs k" by auto
    then show "\<exists>a b. c # cs = a @ k @ b"
    proof cases
      case 1
      then obtain b where "c # cs = k @ b" using startsWith_iff by blast
      then have "c # cs = [] @ k @ b" by simp
      then show ?thesis by blast
    next
      case 2
      then obtain a b where "cs = a @ k @ b" using Cons.IH by blast
      then have "c # cs = (c # a) @ k @ b" by simp
      then show ?thesis by blast
    qed
  next
    assume "\<exists>a b. c # cs = a @ k @ b"
    then obtain a b where ab: "c # cs = a @ k @ b" by blast
    show "includes' (c # cs) k"
    proof (cases a)
      case Nil
      then have "startsWith (c # cs) k" using ab startsWith_iff by auto
      then show ?thesis by simp
    next
      case (Cons a0 as)
      then have "cs = as @ k @ b" using ab by simp
      then have "includes' cs k" using Cons.IH by blast
      then show ?thesis by simp
    qed
  qed
qed

lemma setAdd_set: "set (setAdd v found) = insert v (set found)"
  by (auto simp: setAdd_def)

lemma setAdd_distinct: "distinct found \<Longrightarrow> distinct (setAdd v found)"
  by (auto simp: setAdd_def)

lemma foundCategories_set:
  "set (foundCategories table desc found) =
     set found \<union> {v. \<exists>k. (k, v) \<in> set table \<and> includes' desc (toUpperCase k)}"
  by (induction table desc found rule: foundCategories.induct) (auto simp: setAdd_set)

lemma foundCategories_distinct:
  "distinct found \<Longrightarrow> distinct (foundCategories table desc found)"
  by (induction table desc found rule: foundCategories.induct) (auto simp: setAdd_distinct)

lemma foundCategories_matched:
  "set (foundCategories table (toUpperCase d) []) = matchedLabels table d"
  by (auto simp: foundCategories_set matchedLabels_def includes_iff)

lemma sort_distinct_eq: "distinct xs \<Longrightarrow> sort xs = sorted_list_of_set (set xs)"
  by (simp add: sorted_list_of_set_sort_remdups distinct_remdups_id)

lemma getCategory_matched:
  "getCategory table d =
     (if matchedLabels table d = {} then ''Other''
      else join ''-'' (sorted_list_of_set (matchedLabels table d)))"
proof -
  let ?found = "foundCategories table (toUpperCase d) []"
  have s: "set ?found = matchedLabels table d" by (rule foundCategories_matched)
  have "distinct ?found" by (simp add: foundCategories_distinct)
  then have "sort ?found = sorted_list_of_set (matchedLabels table d)"
    using s sort_distinct_eq by metis
  moreover have "(length ?found > 0) = (matchedLabels table d \<noteq> {})"
    using s by auto
  ultimately show ?thesis by (simp add: getCategory_def Let_def)
qed

lemma matchedLabels_cong: "set table' = set table \<Longrightarrow> matchedLabels table' d = matchedLabels table d"
  by (simp add: matchedLabels_def)

text \<open>
  Claim C5. For every description and keyword table, getCategory returns the distinct
  labels whose keyword occurs, ignoring case, as a substring of the upper-cased
  description, sorted lexicographically and joined with a hyphen, or the literal Other
  when no keyword matches; a permutation of the table's entries leaves the result
  unchanged.
\<close>

theorem getCategory_sorted_labels:
  "getCategory table d =
     (if matchedLabels table d = {} then ''Other''
      else join ''-'' (sorted_list_of_set (matchedLabels table d)))
   \<and> (\<forall>table'. mset table' = mset table \<longrightarrow> getCategory table' d = getCategory table d)"
proof
  show "getCategory table d =
     (if matchedLabels table d = {} then ''Other''
      else join ''-'' (sorted_list_of_set (matchedLabels table d)))"
    by (rule getCategory_matched)
next
  show "\<forall>table'. mset table' = mset table \<longrightarrow> getCategory table' d = getCategory table d"
  proof (intro allI impI)
    fix table' :: "(string \<times> string) list"
    assume "mset table' = mset table"
    then have "set table' = set table" by (rule mset_eq_setD)
    then have "matchedLabels table' d = matchedLabels table d" by (rule matchedLabels_cong)
    then show "getCategory table' d = getCategory table d"
      by (simp add: getCategory_matched)
  qed
qed

theorem getCategory_sorted_labels_witness:
  "getCategory [(''swiggy'', ''FOOD''), (''bigbasket'', ''GROCERY SHOPPING''), (''zomato'', ''FOOD'')]
       ''Swiggy order via BigBasket''
     = ''FOOD-GROCERY SHOPPING''
   \<and> getCategory [(''zomato'', ''FOOD''), (''bigbasket'', ''GROCERY SHOPPING''), (''swiggy'', ''FOOD'')]
       ''Swiggy order via BigBasket''
     = getCategory [(''swiggy'', ''FOOD''), (''bigbasket'', ''GROCERY SHOPPING''), (''zomato'', ''FOOD'')]
       ''Swiggy order via BigBasket''"
proof -
  let ?t = "[(''swiggy'', ''FOOD''), (''bigbasket'', ''GROCERY SHOPPING''), (''zomato'', ''FOOD'')]"
  let ?t' = "[(''zomato'', ''FOOD''), (''bigbasket'', ''GROCERY SHOPPING''), (''swiggy'', ''FOOD'')]"
  have m: "mset ?t' = mset ?t" by (simp add: add.commute add.left_commute)
  have "getCategory ?t' ''Swiggy order via BigBasket'' = getCategory ?t ''Swiggy order via BigBasket''"
    using getCategory_sorted_labels [of ?t "''Swiggy order via BigBasket''"] m by blast
  moreover have "getCategory ?t ''Swiggy order via BigBasket'' = ''FOOD-GROCERY SHOPPING''"
    by code_simp
  ultimately show ?thesis by simp
qed

section \<open>Properties of the calendar\<close>

lemma DayFromYear_1970: "DayFromYear 1970 = 0"
  by (simp add: DayFromYear_def)

lemma DayFromYear_upper_ge: "1970 \<le> y \<Longrightarrow> DayFromYear y \<le> 366 * (y - 1970)"
proof (induction y rule: int_ge_induct)
  case base
  then show ?case by (simp add: DayFromYear_1970)
next
  case (step i)
  then show ?case using DayFromYear_Suc [of i] DaysInYear_bounds(2) [of i] by simp
qed

lemma DayFromYear_upper_le: "y \<le> 1970 \<Longrightarrow> DayFromYear y \<le> 365 * (y - 1970)"
proof (induction y rule: int_le_induct)
  case base
  then show ?case by (simp add: DayFromYear_1970)
next
  case (step i)
  then show ?case using DayFromYear_Suc [of "i - 1"] DaysInYear_bounds(1) [of "i - 1"] by simp
qed

lemma DayFromYear_lower_ge: "1970 \<le> y \<Longrightarrow> 365 * (y - 1970) \<le> DayFromYear y"
proof (induction y rule: int_ge_induct)
  case base
  then show ?case by (simp add: DayFromYear_1970)
next
  case (step i)
  then show ?case using DayFromYear_Suc [of i] DaysInYear_bounds(1) [of i] by simp
qed

lemma DayFromYear_lower_le: "y \<le> 1970 \<Longrightarrow> 366 * (y - 1970) \<le> DayFromYear y"
proof (induction y rule: int_le_induct)
  case base
  then show ?case by (simp add: DayFromYear_1970)
next
  case (step i)
  then show ?case using DayFromYear_Suc [of "i - 1"] DaysInYear_bounds(2) [of "i - 1"] by simp
qed

lemma DayFromYear_mono: "a \<le> b \<Longrightarrow> DayFromYear a \<le> DayFromYear b"
proof (induction b rule: int_ge_induct)
  case base
  then show ?case by simp
next
  case (step i)
  then show ?case using DayFromYear_Suc [of i] DaysInYear_bounds(1) [of i] by simp
qed

lemma year_start_bound: "d < DayFromYear (y + 1) \<Longrightarrow> 1970 + (if 0 \<le> d then d div 366 else d div 365) \<le> y"
proof (cases "0 \<le> d")
  case nonneg: True
  assume a: "d < DayFromYear (y + 1)"
  show ?thesis
  proof (cases "1970 \<le> y + 1")
    case True
    then have "d < 366 * (y + 1 - 1970)" using a DayFromYear_upper_ge [of "y + 1"] by simp
    then show ?thesis using nonneg by simp
  next
    case False
    then have "DayFromYear (y + 1) \<le> 365 * (y + 1 - 1970)"
      using DayFromYear_upper_le [of "y + 1"] by simp
    then show ?thesis using a nonneg False by simp
  qed
next
  case neg: False
  assume a: "d < DayFromYear (y + 1)"
  show ?thesis
  proof (cases "y + 1 \<le> 1970")
    case True
    then have "d < 365 * (y + 1 - 1970)" using a DayFromYear_upper_le [of "y + 1"] by simp
    then show ?thesis using neg by simp
  next
    case False
    moreover have "d div 365 < 0" using neg by simp
    ultimately show ?thesis using neg by simp
  qed
qed

lemma yearUp_correct:
  "y0 \<le> y \<Longrightarrow> DayFromYear y \<le> d \<Longrightarrow> d < DayFromYear (y + 1) \<Longrightarrow> yearUp d y0 = y"
proof (induction "nat (y - y0)" arbitrary: y0)
  case 0
  then have "y0 = y" by simp
  then show ?case using 0 by (simp add: yearUp.simps)
next
  case (Suc n)
  then have lt: "y0 < y" by simp
  have mono: "DayFromYear (y0 + 1) \<le> DayFromYear y"
    using lt DayFromYear_mono [of "y0 + 1" y] by simp
  have "yearUp d (y0 + 1) = y"
    using Suc.hyps(1) [of "y0 + 1"] Suc.hyps(2) Suc.prems lt by simp
  then show ?case using mono Suc.prems by (simp add: yearUp.simps [of d y0])
qed

lemma YearFromDay_correct:
  "DayFromYear y \<le> d \<Longrightarrow> d < DayFromYear y + DaysInYear y \<Longrightarrow> YearFromDay d = y"
  unfolding YearFromDay_def
  using yearUp_correct [of _ y d] year_start_bound [of d y] DayFromYear_Suc [of y] by simp

lemma InLeapYear_cases: "InLeapYear y = 0 \<and> DaysInYear y = 365 \<or> InLeapYear y = 1 \<and> DaysInYear y = 366"
  by (simp add: InLeapYear_def DaysInYear_def)

lemma month_cases:
  "1 \<le> m \<Longrightarrow> m \<le> 12 \<Longrightarrow> m \<in> {1, 2, 3, 4, 5, 6, 7, 8, 9, 10, 11, 12 :: int}"
  by simp arith

lemma MakeDay_valid:
  assumes "1 \<le> m" "m \<le> 12"
  shows "MakeDay y (m - 1) d = DayFromYear y + monthStart (InLeapYear y) (nat (m - 1)) + d - 1"
proof -
  have "(m - 1) div 12 = 0" using assms by simp
  moreover have "(m - 1) mod 12 = m - 1" using assms by simp
  ultimately show ?thesis by (simp add: MakeDay_def Let_def)
qed

lemma valid_day_fields:
  assumes "validDay y m d"
  shows "YearFromDay (MakeDay y (m - 1) d) = y
       \<and> MonthFromDay (MakeDay y (m - 1) d) = m - 1
       \<and> DateFromDay (MakeDay y (m - 1) d) = d"
proof -
  have m: "1 \<le> m" "m \<le> 12" and d: "1 \<le> d" "d \<le> DaysInMonth y m"
    using assms by (simp_all add: validDay_def)
  let ?n = "MakeDay y (m - 1) d"
  let ?l = "InLeapYear y"
  have n: "?n = DayFromYear y + monthStart ?l (nat (m - 1)) + d - 1"
    using m by (rule MakeDay_valid)
  have l: "?l = 0 \<and> DaysInYear y = 365 \<or> ?l = 1 \<and> DaysInYear y = 366"
    by (rule InLeapYear_cases)
  have range: "0 \<le> monthStart ?l (nat (m - 1)) + d - 1
     \<and> monthStart ?l (nat (m - 1)) + d - 1 < DaysInYear y"
    using month_cases [OF m] d l
    by (elim insertE emptyE disjE conjE) (simp_all add: monthStart_def DaysInMonth_def)
  have yr: "YearFromDay ?n = y"
    using YearFromDay_correct [of y ?n] range n by simp
  have dwy: "DayWithinYear ?n = monthStart ?l (nat (m - 1)) + d - 1"
    using yr n by (simp add: DayWithinYear_def)
  have mo: "MonthFromDay ?n = m - 1"
    unfolding MonthFromDay_def Let_def dwy yr
    using month_cases [OF m] d l
    by (elim insertE emptyE disjE conjE) (simp_all add: monthStart_def DaysInMonth_def)
  have "DateFromDay ?n = d"
    unfolding DateFromDay_def dwy yr mo by simp
  then show ?thesis using yr mo by simp
qed


lemma digit_cases: "n < 10 \<Longrightarrow> n \<in> {0, 1, 2, 3, 4, 5, 6, 7, 8, 9 :: nat}"
  by simp arith

lemma isDigit_digitChar: "n < 10 \<Longrightarrow> isDigit (digitChar n)"
proof -
  assume "n < 10"
  then have "n \<in> {0, 1, 2, 3, 4, 5, 6, 7, 8, 9}"
    by (rule digit_cases)
  then show ?thesis
    by (elim insertE emptyE) (simp_all add: isDigit_def digitChar_def)
qed

lemma digitVal_digitChar: "n < 10 \<Longrightarrow> digitVal (digitChar n) = n"
proof -
  assume "n < 10"
  then have "n \<in> {0, 1, 2, 3, 4, 5, 6, 7, 8, 9}"
    by (rule digit_cases)
  then show ?thesis
    by (elim insertE emptyE) (simp_all add: digitVal_def digitChar_def)
qed

lemma digitsVal_snoc: "digitsVal (ds @ [c]) = 10 * digitsVal ds + digitVal c"
  by (simp add: digitsVal_def)

lemma allDigits_digitsOf: "allDigits (digitsOf n)"
proof (induction n rule: digitsOf.induct)
  case (1 n)
  show ?case
  proof (cases "n < 10")
    case True
    then show ?thesis by (simp add: digitsOf.simps [of n] allDigits_def isDigit_digitChar)
  next
    case False
    then have "allDigits (digitsOf (n div 10))" using 1 by simp
    moreover have "isDigit (digitChar (n mod 10))" by (simp add: isDigit_digitChar)
    ultimately show ?thesis using False by (simp add: digitsOf.simps [of n] allDigits_def)
  qed
qed

lemma digitsVal_digitsOf: "digitsVal (digitsOf n) = n"
proof (induction n rule: digitsOf.induct)
  case (1 n)
  show ?case
  proof (cases "n < 10")
    case True
    then show ?thesis
      using digitsVal_snoc [of "[]" "digitChar n"]
      by (simp add: digitsOf.simps [of n] digitVal_digitChar digitsVal_def)
  next
    case False
    then have "digitsVal (digitsOf (n div 10)) = n div 10" using 1 by simp
    then show ?thesis
      using False by (simp add: digitsOf.simps [of n] digitsVal_snoc digitVal_digitChar)
  qed
qed

lemma digitsOf_nonempty: "digitsOf n \<noteq> []"
  by (simp add: digitsOf.simps [of n])

lemma length_digitsOf_1: "n < 10 \<Longrightarrow> length (digitsOf n) = 1"
  by (simp add: digitsOf.simps [of n])

lemma length_digitsOf_2: "10 \<le> n \<Longrightarrow> n < 100 \<Longrightarrow> length (digitsOf n) = 2"
  by (simp add: digitsOf.simps [of n] length_digitsOf_1)

lemma length_digitsOf_3: "100 \<le> n \<Longrightarrow> n < 1000 \<Longrightarrow> length (digitsOf n) = 3"
  by (simp add: digitsOf.simps [of n] length_digitsOf_2)

lemma length_digitsOf_4: "1000 \<le> n \<Longrightarrow> n < 10000 \<Longrightarrow> length (digitsOf n) = 4"
  by (simp add: digitsOf.simps [of n] length_digitsOf_3)

lemma isDigit_not_special:
  "isDigit c \<Longrightarrow> \<not> isSpace c \<and> c \<noteq> CHR ''-'' \<and> c \<noteq> CHR ''+'' \<and> c \<noteq> CHR ''/''"
  by (auto simp: isDigit_def isSpace_def)

lemma allDigits_no_sep: "allDigits s \<Longrightarrow> CHR ''-'' \<notin> set s \<and> CHR ''/'' \<notin> set s"
  using isDigit_not_special by (auto simp: allDigits_def list_all_iff)

lemma parseInt_digits:
  assumes "allDigits s" "s \<noteq> []"
  shows "parseInt s = Some (int (digitsVal s))"
proof -
  obtain c cs where s: "s = c # cs" using assms(2) by (cases s) auto
  have c: "isDigit c" using assms(1) s by (simp add: allDigits_def)
  have 1: "dropWhile isSpace s = s" using s c isDigit_not_special by simp
  have 2: "hd s \<noteq> CHR ''-''" "hd s \<noteq> CHR ''+''" using s c isDigit_not_special by auto
  have 3: "takeWhile isDigit s = s" using assms(1) by (simp add: allDigits_def list_all_iff)
  show ?thesis
    using assms(2) by (simp add: parseInt_def Let_def 1 2 3)
qed

lemma split_no_sep: "sep \<notin> set s \<Longrightarrow> split sep s = [s]"
  by (induction s) auto

lemma split_append: "sep \<notin> set a \<Longrightarrow> split sep (a @ sep # r) = a # split sep r"
  by (induction a) auto

lemma split3:
  "sep \<notin> set a \<Longrightarrow> sep \<notin> set b \<Longrightarrow> sep \<notin> set c \<Longrightarrow>
   split sep (a @ [sep] @ b @ [sep] @ c) = [a, b, c]"
  by (simp add: split_append split_no_sep)

lemma trim_id:
  assumes "s \<noteq> []" "\<not> isSpace (hd s)" "\<not> isSpace (last s)"
  shows "trim s = s"
proof -
  have 1: "dropWhile isSpace s = s" using assms(1,2) by (cases s) auto
  have 2: "dropWhile isSpace (rev s) = rev s"
    using assms(1,3) by (simp add: dropWhile_eq_self_iff hd_rev)
  show ?thesis by (simp add: trim_def 1 2)
qed

lemma allDigits_hd_last:
  "allDigits s \<Longrightarrow> s \<noteq> [] \<Longrightarrow> \<not> isSpace (hd s) \<and> \<not> isSpace (last s)"
  using isDigit_not_special by (auto simp: allDigits_def list_all_iff)


lemma digitVal_lt: "digitVal c < 10"
  by (auto simp: digitVal_def split: option.splits if_splits)

lemma digitsVal_lt: "digitsVal s < 10 ^ length s"
proof (induction s rule: rev_induct)
  case Nil
  then show ?case by (simp add: digitsVal_def)
next
  case (snoc c s)
  have "digitsVal (s @ [c]) = 10 * digitsVal s + digitVal c" by (rule digitsVal_snoc)
  moreover have "digitVal c < 10" by (rule digitVal_lt)
  moreover have "digitsVal s + 1 \<le> 10 ^ length s" using snoc by simp
  ultimately show ?case by simp
qed

lemma length_digitsOf_Suc: "10 \<le> n \<Longrightarrow> length (digitsOf n) = Suc (length (digitsOf (n div 10)))"
  by (simp add: digitsOf.simps [of n])

lemma length_digitsOf_ge4: "1000 \<le> n \<Longrightarrow> 4 \<le> length (digitsOf n)"
proof -
  assume n: "1000 \<le> n"
  have 1: "length (digitsOf n) = Suc (length (digitsOf (n div 10)))"
    using n by (simp add: length_digitsOf_Suc)
  have 2: "length (digitsOf (n div 10)) = Suc (length (digitsOf (n div 10 div 10)))"
    using n by (intro length_digitsOf_Suc) simp
  have 3: "length (digitsOf (n div 10 div 10)) = Suc (length (digitsOf (n div 10 div 10 div 10)))"
    using n by (intro length_digitsOf_Suc) simp
  have "1 \<le> length (digitsOf (n div 10 div 10 div 10))"
    using digitsOf_nonempty [of "n div 10 div 10 div 10"] by (simp add: Suc_le_eq)
  then show ?thesis unfolding 1 2 3 by simp
qed

lemma DayFromYear_range:
  assumes "100 \<le> y" "y \<le> 9999"
  shows "- 684420 \<le> DayFromYear y \<and> DayFromYear y \<le> 2938614"
proof (cases "1970 \<le> y")
  case True
  then show ?thesis
    using DayFromYear_upper_ge [of y] DayFromYear_lower_ge [of y] assms by simp
next
  case False
  then show ?thesis
    using DayFromYear_upper_le [of y] DayFromYear_lower_le [of y] assms by simp
qed

lemma MakeDay_valid_range:
  assumes "validDay y m d"
  shows "DayFromYear y \<le> MakeDay y (m - 1) d \<and> MakeDay y (m - 1) d < DayFromYear y + 366"
proof -
  have m: "1 \<le> m" "m \<le> 12" and d: "1 \<le> d" "d \<le> DaysInMonth y m"
    using assms by (simp_all add: validDay_def)
  have l: "InLeapYear y = 0 \<and> DaysInYear y = 365 \<or> InLeapYear y = 1 \<and> DaysInYear y = 366"
    by (rule InLeapYear_cases)
  have "0 \<le> monthStart (InLeapYear y) (nat (m - 1)) + d - 1
     \<and> monthStart (InLeapYear y) (nat (m - 1)) + d - 1 < 366"
    using month_cases [OF m] d l
    by (elim insertE emptyE disjE conjE) (simp_all add: monthStart_def DaysInMonth_def)
  then show ?thesis using MakeDay_valid [OF m, of y d] by simp
qed

lemma DateUTC_valid:
  assumes "validDay y m d" "100 \<le> y" "y \<le> 9999"
  shows "DateUTC y (m - 1) d = Date (MakeDay y (m - 1) d * msPerDay)"
proof -
  let ?n = "MakeDay y (m - 1) d"
  have "- 684420 \<le> ?n \<and> ?n \<le> 2938980"
    using MakeDay_valid_range [OF assms(1)] DayFromYear_range [OF assms(2,3)] by simp
  then have "\<bar>?n * msPerDay\<bar> \<le> 8640000000000000"
    by (simp add: msPerDay_def abs_le_iff)
  then show ?thesis using assms(2) by (simp add: DateUTC_def TimeClip_def Let_def)
qed

lemma roundTrips_valid:
  assumes "validDay y m d"
  shows "roundTrips (Date (MakeDay y (m - 1) d * msPerDay)) y (m - 1) d"
  using valid_day_fields [OF assms]
  by (simp add: roundTrips_def getUTCFullYear_def getUTCMonth_def getUTCDate_def msPerDay_def)

lemma formatDate_valid:
  assumes "validDay y m d"
  shows "formatDate (Date (MakeDay y (m - 1) d * msPerDay))
       = intToString y @ ''-'' @ padStart2 (intToString m) @ ''-'' @ padStart2 (intToString d)"
  using valid_day_fields [OF assms]
  by (simp add: formatDate_def getUTCFullYear_def getUTCMonth_def getUTCDate_def msPerDay_def
      numStr_def Let_def)

lemma canonical_4: "1000 \<le> y \<Longrightarrow>
  canonical y m d = intToString y @ ''-'' @ padStart2 (intToString m) @ ''-'' @ padStart2 (intToString d)"
proof -
  assume y: "1000 \<le> y"
  then have "4 \<le> length (digitsOf (nat y))" by (intro length_digitsOf_ge4) simp
  then have "padStart4 (intToString y) = intToString y"
    using y by (simp add: padStart4_def intToString_def)
  then show ?thesis by (simp add: canonical_def)
qed

lemma parse_then_format:
  assumes "validDay y m d" "1000 \<le> y" "y \<le> 9999"
  shows "formatDate (DateUTC y (m - 1) d) = canonical y m d"
  using assms DateUTC_valid [of y m d] formatDate_valid [of y m d] canonical_4 [of y m d] by simp

lemma DateUTC_roundTrips:
  assumes "validDay y m d" "100 \<le> y" "y \<le> 9999"
  shows "roundTrips (DateUTC y (m - 1) d) y (m - 1) d"
  using assms DateUTC_valid [of y m d] roundTrips_valid [of y m d] by simp


lemma fieldRep_props:
  assumes "fieldRep s v"
  shows "allDigits s" "s \<noteq> []" "1 \<le> length s" "length s \<le> 2" "parseInt s = Some v"
        "CHR ''-'' \<notin> set s" "CHR ''/'' \<notin> set s"
proof -
  show a: "allDigits s" and l: "1 \<le> length s" "length s \<le> 2"
    using assms by (simp_all add: fieldRep_def)
  show n: "s \<noteq> []" using l by auto
  show "parseInt s = Some v" using parseInt_digits [OF a n] assms by (simp add: fieldRep_def)
  show "CHR ''-'' \<notin> set s" "CHR ''/'' \<notin> set s" using allDigits_no_sep [OF a] by simp_all
qed

lemma yearRep4_props:
  assumes "yearRep4 s y"
  shows "allDigits s" "s \<noteq> []" "length s = 4" "parseInt s = Some y" "0 \<le> y" "y \<le> 9999"
        "CHR ''-'' \<notin> set s" "CHR ''/'' \<notin> set s"
proof -
  show a: "allDigits s" and l: "length s = 4" using assms by (simp_all add: yearRep4_def)
  show n: "s \<noteq> []" using l by auto
  show "parseInt s = Some y" using parseInt_digits [OF a n] assms by (simp add: yearRep4_def)
  show "0 \<le> y" using assms by (auto simp: yearRep4_def)
  have "digitsVal s < 10 ^ 4" using digitsVal_lt [of s] l by simp
  then show "y \<le> 9999" using assms by (auto simp: yearRep4_def)
  show "CHR ''-'' \<notin> set s" "CHR ''/'' \<notin> set s" using allDigits_no_sep [OF a] by simp_all
qed

lemma yearRep2_props:
  assumes "yearRep2 s y"
  shows "allDigits s" "s \<noteq> []" "length s = 2" "parseInt s = Some (y - 2000)"
        "2000 \<le> y" "y \<le> 2099" "CHR ''-'' \<notin> set s" "CHR ''/'' \<notin> set s"
proof -
  show a: "allDigits s" and l: "length s = 2" using assms by (simp_all add: yearRep2_def)
  show n: "s \<noteq> []" using l by auto
  show "parseInt s = Some (y - 2000)"
    using parseInt_digits [OF a n] assms by (auto simp: yearRep2_def)
  show "2000 \<le> y" using assms by (auto simp: yearRep2_def)
  have "digitsVal s < 10 ^ 2" using digitsVal_lt [of s] l by simp
  then show "y \<le> 2099" using assms by (auto simp: yearRep2_def)
  show "CHR ''-'' \<notin> set s" "CHR ''/'' \<notin> set s" using allDigits_no_sep [OF a] by simp_all
qed

lemma matchPattern1_rep:
  assumes "yearRep4 ys y" "fieldRep ms m" "fieldRep ds d"
  shows "matchPattern1 (ys @ ''-'' @ ms @ ''-'' @ ds) = Some (ys, ms, ds)"
proof -
  have "split CHR ''-'' (ys @ [CHR ''-''] @ ms @ [CHR ''-''] @ ds) = [ys, ms, ds]"
    using yearRep4_props(7) [OF assms(1)] fieldRep_props(6) [OF assms(2)]
      fieldRep_props(6) [OF assms(3)] by (rule split3)
  then show ?thesis
    using yearRep4_props(1,3) [OF assms(1)] fieldRep_props(1,3,4) [OF assms(2)]
      fieldRep_props(1,3,4) [OF assms(3)]
    by (simp add: matchPattern1_def)
qed

lemma tryPattern1_rep:
  assumes "validDay y m d" "100 \<le> y" "yearRep4 ys y" "fieldRep ms m" "fieldRep ds d"
  shows "tryPattern1 (ys @ ''-'' @ ms @ ''-'' @ ds) = Some (DateUTC y (m - 1) d)"
  using matchPattern1_rep [OF assms(3,4,5)]
    yearRep4_props(4) [OF assms(3)] fieldRep_props(5) [OF assms(4)] fieldRep_props(5) [OF assms(5)]
    DateUTC_roundTrips [OF assms(1,2) yearRep4_props(6) [OF assms(3)]]
  by (simp add: tryPattern1_def Let_def)

lemma matchPattern2_rep:
  assumes "allDigits ys" "2 \<le> length ys" "length ys \<le> 4" "fieldRep ms m" "fieldRep ds d"
  shows "matchPattern2 (ds @ ''/'' @ ms @ ''/'' @ ys) = Some (ds, ms, ys)"
proof -
  have "split CHR ''/'' (ds @ [CHR ''/''] @ ms @ [CHR ''/''] @ ys) = [ds, ms, ys]"
    using fieldRep_props(7) [OF assms(5)] fieldRep_props(7) [OF assms(4)]
      allDigits_no_sep [OF assms(1)] by (intro split3) simp_all
  then show ?thesis
    using assms(1,2,3) fieldRep_props(1,3,4) [OF assms(4)] fieldRep_props(1,3,4) [OF assms(5)]
    by (simp add: matchPattern2_def)
qed

lemma tryPattern2_rep4:
  assumes "validDay y m d" "100 \<le> y" "yearRep4 ys y" "fieldRep ms m" "fieldRep ds d"
  shows "tryPattern2 (ds @ ''/'' @ ms @ ''/'' @ ys) = Some (DateUTC y (m - 1) d)"
proof -
  have "matchPattern2 (ds @ ''/'' @ ms @ ''/'' @ ys) = Some (ds, ms, ys)"
    using yearRep4_props(1,3) [OF assms(3)] assms(4,5) by (intro matchPattern2_rep) simp_all
  then show ?thesis
    using assms(2)
      yearRep4_props(4) [OF assms(3)] fieldRep_props(5) [OF assms(4)] fieldRep_props(5) [OF assms(5)]
      DateUTC_roundTrips [OF assms(1,2) yearRep4_props(6) [OF assms(3)]]
    by (simp add: tryPattern2_def Let_def)
qed

lemma tryPattern2_rep2:
  assumes "validDay y m d" "yearRep2 ys y" "fieldRep ms m" "fieldRep ds d"
  shows "tryPattern2 (ds @ ''/'' @ ms @ ''/'' @ ys) = Some (DateUTC y (m - 1) d)"
proof -
  have y: "2000 \<le> y" "y \<le> 2099" using yearRep2_props(5,6) [OF assms(2)] by simp_all
  have "matchPattern2 (ds @ ''/'' @ ms @ ''/'' @ ys) = Some (ds, ms, ys)"
    using yearRep2_props(1,3) [OF assms(2)] assms(3,4) by (intro matchPattern2_rep) simp_all
  moreover have "roundTrips (DateUTC y (m - 1) d) y (m - 1) d"
    using assms(1) y by (intro DateUTC_roundTrips) simp_all
  ultimately show ?thesis
    using y yearRep2_props(4) [OF assms(2)] fieldRep_props(5) [OF assms(3)]
      fieldRep_props(5) [OF assms(4)]
    by (simp add: tryPattern2_def Let_def)
qed

lemma tryPattern1_slashes: "CHR ''-'' \<notin> set s \<Longrightarrow> tryPattern1 s = None"
  by (simp add: tryPattern1_def matchPattern1_def split_no_sep)

lemma tryPattern2_hyphens: "CHR ''/'' \<notin> set s \<Longrightarrow> tryPattern2 s = None"
  by (simp add: tryPattern2_def matchPattern2_def split_no_sep)

lemma letter_not_sep: "isLower c \<or> isUpper c \<Longrightarrow> c \<noteq> CHR ''-'' \<and> c \<noteq> CHR ''/''"
  by (auto simp: isLower_def isUpper_def)

lemma letters_no_sep: "allLetters s \<Longrightarrow> CHR ''-'' \<notin> set s \<and> CHR ''/'' \<notin> set s"
  using letter_not_sep by (fastforce simp: allLetters_def list_all_iff)

lemma toLowerChar_letter: "isLower (toLowerChar c) \<Longrightarrow> isLower c \<or> isUpper c"
proof (cases "isUpper c")
  case True
  then show ?thesis by simp
next
  case False
  then have "map_of (zip ''ABCDEFGHIJKLMNOPQRSTUVWXYZ'' ''abcdefghijklmnopqrstuvwxyz'') c = None"
    by (simp add: isUpper_def)
  then have "toLowerChar c = c" by (simp add: toLowerChar_def)
  moreover assume "isLower (toLowerChar c)"
  ultimately show ?thesis by simp
qed

lemma allLetters_of_lower: "list_all isLower (toLowerCase s) \<Longrightarrow> allLetters s"
  using toLowerChar_letter by (auto simp: allLetters_def toLowerCase_def list_all_iff)

lemma monthMap_names: "list_all (\<lambda>(k, v). list_all isLower k \<and> 0 \<le> v \<and> v \<le> 11) monthMap"
  by (simp add: monthMap_def isLower_def)

lemma monthMap_lower: "map_of monthMap k = Some v \<Longrightarrow> list_all isLower k \<and> 0 \<le> v \<and> v \<le> 11"
proof -
  assume "map_of monthMap k = Some v"
  then have "(k, v) \<in> set monthMap" by (rule map_of_SomeD)
  then show ?thesis using monthMap_names unfolding list_all_iff by blast
qed

lemma monthRep_props:
  assumes "monthRep s m"
  shows "allLetters s" "length s = 3" "map_of monthMap (toLowerCase s) = Some (m - 1)"
        "CHR ''-'' \<notin> set s" "CHR ''/'' \<notin> set s"
proof -
  show l: "length s = 3" and mm: "map_of monthMap (toLowerCase s) = Some (m - 1)"
    using assms by (simp_all add: monthRep_def)
  show a: "allLetters s" using monthMap_lower [OF mm] allLetters_of_lower by simp
  show "CHR ''-'' \<notin> set s" "CHR ''/'' \<notin> set s" using letters_no_sep [OF a] by simp_all
qed

lemma split3_hyphen:
  assumes "CHR ''-'' \<notin> set a" "CHR ''-'' \<notin> set b" "CHR ''-'' \<notin> set c"
  shows "split CHR ''-'' (a @ ''-'' @ b @ ''-'' @ c) = [a, b, c]"
  using split3 [OF assms] by simp

lemma tryPattern1_short_first:
  assumes "fieldRep ds d" "CHR ''-'' \<notin> set b" "CHR ''-'' \<notin> set c"
  shows "tryPattern1 (ds @ ''-'' @ b @ ''-'' @ c) = None"
proof -
  have "split CHR ''-'' (ds @ ''-'' @ b @ ''-'' @ c) = [ds, b, c]"
    using fieldRep_props(6) [OF assms(1)] assms(2,3) by (rule split3_hyphen)
  then show ?thesis
    using fieldRep_props(4) [OF assms(1)] by (simp add: tryPattern1_def matchPattern1_def)
qed

lemma matchPattern3_rep:
  assumes "allDigits ys" "2 \<le> length ys" "length ys \<le> 4" "monthRep mon m" "fieldRep ds d"
  shows "matchPattern3 (ds @ ''-'' @ mon @ ''-'' @ ys) = Some (ds, mon, ys)"
proof -
  have "split CHR ''-'' (ds @ ''-'' @ mon @ ''-'' @ ys) = [ds, mon, ys]"
    using fieldRep_props(6) [OF assms(5)] monthRep_props(4) [OF assms(4)]
      allDigits_no_sep [OF assms(1)] by (intro split3_hyphen) simp_all
  then show ?thesis
    using assms(1,2,3) monthRep_props(1,2) [OF assms(4)] fieldRep_props(1,3,4) [OF assms(5)]
    by (simp add: matchPattern3_def)
qed

lemma tryPattern3_rep4:
  assumes "validDay y m d" "100 \<le> y" "yearRep4 ys y" "monthRep mon m" "fieldRep ds d"
  shows "tryPattern3 (ds @ ''-'' @ mon @ ''-'' @ ys) = Some (DateUTC y (m - 1) d)"
proof -
  have "matchPattern3 (ds @ ''-'' @ mon @ ''-'' @ ys) = Some (ds, mon, ys)"
    using yearRep4_props(1,3) [OF assms(3)] assms(4,5) by (intro matchPattern3_rep) simp_all
  then show ?thesis
    using assms(2)
      yearRep4_props(4) [OF assms(3)] monthRep_props(3) [OF assms(4)] fieldRep_props(5) [OF assms(5)]
      DateUTC_roundTrips [OF assms(1,2) yearRep4_props(6) [OF assms(3)]]
    by (simp add: tryPattern3_def Let_def)
qed

lemma tryPattern3_rep2:
  assumes "validDay y m d" "yearRep2 ys y" "monthRep mon m" "fieldRep ds d"
  shows "tryPattern3 (ds @ ''-'' @ mon @ ''-'' @ ys) = Some (DateUTC y (m - 1) d)"
proof -
  have y: "2000 \<le> y" "y \<le> 2099" using yearRep2_props(5,6) [OF assms(2)] by simp_all
  have "matchPattern3 (ds @ ''-'' @ mon @ ''-'' @ ys) = Some (ds, mon, ys)"
    using yearRep2_props(1,3) [OF assms(2)] assms(3,4) by (intro matchPattern3_rep) simp_all
  moreover have "roundTrips (DateUTC y (m - 1) d) y (m - 1) d"
    using assms(1) y by (intro DateUTC_roundTrips) simp_all
  ultimately show ?thesis
    using y yearRep2_props(4) [OF assms(2)] monthRep_props(3) [OF assms(3)]
      fieldRep_props(5) [OF assms(4)]
    by (simp add: tryPattern3_def Let_def)
qed

text \<open>A string that starts and ends with a digit is its own trimmed form.\<close>

lemma trim_digits_ends:
  assumes "allDigits a" "a \<noteq> []" "allDigits c" "c \<noteq> []"
  shows "trim (a @ b @ c) = a @ b @ c" "a @ b @ c \<noteq> []"
proof -
  have "hd (a @ b @ c) = hd a" using assms(2) by simp
  moreover have "last (a @ b @ c) = last c" using assms(4) by simp
  ultimately show "trim (a @ b @ c) = a @ b @ c"
    using allDigits_hd_last [OF assms(1,2)] allDigits_hd_last [OF assms(3,4)] assms(2)
    by (intro trim_id) simp_all
  show "a @ b @ c \<noteq> []" using assms(2) by simp
qed

lemma parseDateStr_pattern1:
  assumes "trim s = s" "s \<noteq> []" "tryPattern1 s = Some r"
  shows "parseDate h (Str s) = Some r"
  using assms by (simp add: parseDate_def parseDateStr_def Let_def)

lemma parseDateStr_pattern2:
  assumes "trim s = s" "s \<noteq> []" "tryPattern1 s = None" "tryPattern2 s = Some r"
  shows "parseDate h (Str s) = Some r"
  using assms by (simp add: parseDate_def parseDateStr_def Let_def)

lemma parseDateStr_pattern3:
  assumes "trim s = s" "s \<noteq> []" "tryPattern1 s = None" "tryPattern2 s = None"
    "tryPattern3 s = Some r"
  shows "parseDate h (Str s) = Some r"
  using assms by (simp add: parseDate_def parseDateStr_def Let_def)

lemma parse_ymd:
  assumes "validDay y m d" "100 \<le> y" "yearRep4 ys y" "fieldRep ms m" "fieldRep ds d"
  shows "parseDate h (Str (ys @ ''-'' @ ms @ ''-'' @ ds)) = Some (DateUTC y (m - 1) d)"
proof -
  have "trim (ys @ (''-'' @ ms @ ''-'') @ ds) = ys @ (''-'' @ ms @ ''-'') @ ds"
    "ys @ (''-'' @ ms @ ''-'') @ ds \<noteq> []"
    using yearRep4_props(1,2) [OF assms(3)] fieldRep_props(1,2) [OF assms(5)]
    by (rule trim_digits_ends)+
  then show ?thesis
    using tryPattern1_rep [OF assms] by (intro parseDateStr_pattern1) simp_all
qed

lemma parse_dmy:
  assumes "validDay y m d" "fieldRep ms m" "fieldRep ds d"
    and ys: "yearRep4 ys y \<and> 100 \<le> y \<or> yearRep2 ys y"
  shows "parseDate h (Str (ds @ ''/'' @ ms @ ''/'' @ ys)) = Some (DateUTC y (m - 1) d)"
proof -
  have yd: "allDigits ys \<and> ys \<noteq> []"
    using ys yearRep4_props(1,2) [of ys y] yearRep2_props(1,2) [of ys y] by auto
  have "trim (ds @ (''/'' @ ms @ ''/'') @ ys) = ds @ (''/'' @ ms @ ''/'') @ ys"
    "ds @ (''/'' @ ms @ ''/'') @ ys \<noteq> []"
    using fieldRep_props(1,2) [OF assms(3)] yd by (intro trim_digits_ends; simp)+
  moreover have "CHR ''-'' \<notin> set (ds @ ''/'' @ ms @ ''/'' @ ys)"
    using fieldRep_props(6) [OF assms(2)] fieldRep_props(6) [OF assms(3)] yd allDigits_no_sep [of ys]
    by simp
  then have "tryPattern1 (ds @ ''/'' @ ms @ ''/'' @ ys) = None" by (rule tryPattern1_slashes)
  moreover have "tryPattern2 (ds @ ''/'' @ ms @ ''/'' @ ys) = Some (DateUTC y (m - 1) d)"
    using ys tryPattern2_rep4 [OF assms(1) _ _ assms(2,3)] tryPattern2_rep2 [OF assms(1) _ assms(2,3)]
    by blast
  ultimately show ?thesis by (intro parseDateStr_pattern2) simp_all
qed

lemma parse_dmony:
  assumes "validDay y m d" "monthRep mon m" "fieldRep ds d"
    and ys: "yearRep4 ys y \<and> 100 \<le> y \<or> yearRep2 ys y"
  shows "parseDate h (Str (ds @ ''-'' @ mon @ ''-'' @ ys)) = Some (DateUTC y (m - 1) d)"
proof -
  have yd: "allDigits ys \<and> ys \<noteq> []"
    using ys yearRep4_props(1,2) [of ys y] yearRep2_props(1,2) [of ys y] by auto
  have "trim (ds @ (''-'' @ mon @ ''-'') @ ys) = ds @ (''-'' @ mon @ ''-'') @ ys"
    "ds @ (''-'' @ mon @ ''-'') @ ys \<noteq> []"
    using fieldRep_props(1,2) [OF assms(3)] yd by (intro trim_digits_ends; simp)+
  moreover have "tryPattern1 (ds @ ''-'' @ mon @ ''-'' @ ys) = None"
    using assms(3) monthRep_props(4) [OF assms(2)] yd allDigits_no_sep [of ys]
    by (intro tryPattern1_short_first) simp_all
  moreover have "CHR ''/'' \<notin> set (ds @ ''-'' @ mon @ ''-'' @ ys)"
    using monthRep_props(5) [OF assms(2)] fieldRep_props(7) [OF assms(3)] yd allDigits_no_sep [of ys]
    by simp
  then have "tryPattern2 (ds @ ''-'' @ mon @ ''-'' @ ys) = None" by (rule tryPattern2_hyphens)
  moreover have "tryPattern3 (ds @ ''-'' @ mon @ ''-'' @ ys) = Some (DateUTC y (m - 1) d)"
    using ys tryPattern3_rep4 [OF assms(1) _ _ assms(2,3)] tryPattern3_rep2 [OF assms(1) _ assms(2,3)]
    by blast
  ultimately show ?thesis by (intro parseDateStr_pattern3) simp_all
qed

lemma digitsVal_Cons0: "digitsVal (CHR ''0'' # ds) = digitsVal ds"
  by (simp add: digitsVal_def digitVal_def)

lemma fieldRep_padStart2:
  assumes "1 \<le> v" "v \<le> 99"
  shows "fieldRep (padStart2 (intToString v)) v"
proof (cases "v < 10")
  case True
  then have "length (digitsOf (nat v)) = 1" using assms by (intro length_digitsOf_1) simp
  then have "padStart2 (intToString v) = CHR ''0'' # digitsOf (nat v)"
    using assms by (simp add: padStart2_def intToString_def)
  then show ?thesis
    using allDigits_digitsOf [of "nat v"] digitsVal_digitsOf [of "nat v"] assms
      \<open>length (digitsOf (nat v)) = 1\<close>
    by (simp add: fieldRep_def digitsVal_Cons0 allDigits_def isDigit_def)
next
  case False
  then have l: "length (digitsOf (nat v)) = 2" using assms by (intro length_digitsOf_2) simp_all
  then have "padStart2 (intToString v) = digitsOf (nat v)"
    using assms by (simp add: padStart2_def intToString_def)
  then show ?thesis
    using allDigits_digitsOf [of "nat v"] digitsVal_digitsOf [of "nat v"] assms l
    by (simp add: fieldRep_def)
qed

lemma yearRep4_intToString:
  assumes "1000 \<le> y" "y \<le> 9999"
  shows "yearRep4 (intToString y) y"
proof -
  have "length (digitsOf (nat y)) = 4" using assms by (intro length_digitsOf_4) simp_all
  then show ?thesis
    using allDigits_digitsOf [of "nat y"] digitsVal_digitsOf [of "nat y"] assms
    by (simp add: yearRep4_def intToString_def)
qed

lemma validDay_bounds:
  assumes "validDay y m d"
  shows "1 \<le> m" "m \<le> 99" "1 \<le> d" "d \<le> 99"
proof -
  have m: "1 \<le> m" "m \<le> 12" and d: "1 \<le> d" "d \<le> DaysInMonth y m"
    using assms by (simp_all add: validDay_def)
  have l: "InLeapYear y = 0 \<and> DaysInYear y = 365 \<or> InLeapYear y = 1 \<and> DaysInYear y = 366"
    by (rule InLeapYear_cases)
  have "DaysInMonth y m \<le> 31"
    using month_cases [OF m] l by (elim insertE emptyE disjE conjE) (simp_all add: DaysInMonth_def)
  then show "1 \<le> m" "m \<le> 99" "1 \<le> d" "d \<le> 99" using m d by simp_all
qed

lemma parse_canonical:
  assumes "validDay y m d" "1000 \<le> y" "y \<le> 9999"
  shows "parseDate h (Str (canonical y m d)) = Some (DateUTC y (m - 1) d)"
proof -
  have "parseDate h (Str (intToString y @ ''-'' @ padStart2 (intToString m) @ ''-'' @ padStart2 (intToString d)))
      = Some (DateUTC y (m - 1) d)"
    using assms validDay_bounds [OF assms(1)]
    by (intro parse_ymd yearRep4_intToString fieldRep_padStart2) simp_all
  then show ?thesis using canonical_4 [OF assms(2)] by simp
qed

text \<open>
  The round-trip law from the year 1000 on. For every valid calendar day of such a year, parseDate
  followed by formatDate gives the canonical zero-padded string \<open>YYYY-MM-DD\<close> on each of
  its written forms: \<open>YYYY-M-D\<close>, \<open>D/M/YYYY\<close> and \<open>D-Mon-YYYY\<close> with a four-digit year, and
  \<open>D/M/YY\<close> and \<open>D-Mon-YY\<close> with a two-digit year standing for 2000 + year; day and month
  may carry a leading zero and the month abbreviation may be in any case. On the
  canonical string itself parseDate gives the date that formatDate maps back to it.
\<close>

theorem parse_format_roundtrip:
  assumes "validDay y m d" "1000 \<le> y" "fieldRep ms m" "fieldRep ds d"
  shows
    "(yearRep4 ys y \<longrightarrow>
        map_option formatDate (parseDate h (Str (ys @ ''-'' @ ms @ ''-'' @ ds))) = Some (canonical y m d)
      \<and> map_option formatDate (parseDate h (Str (ds @ ''/'' @ ms @ ''/'' @ ys))) = Some (canonical y m d)
      \<and> (monthRep mon m \<longrightarrow>
          map_option formatDate (parseDate h (Str (ds @ ''-'' @ mon @ ''-'' @ ys))) = Some (canonical y m d)))
   \<and> (yearRep2 ys y \<longrightarrow>
        map_option formatDate (parseDate h (Str (ds @ ''/'' @ ms @ ''/'' @ ys))) = Some (canonical y m d)
      \<and> (monthRep mon m \<longrightarrow>
          map_option formatDate (parseDate h (Str (ds @ ''-'' @ mon @ ''-'' @ ys))) = Some (canonical y m d)))
   \<and> (y \<le> 9999 \<longrightarrow>
        parseDate h (Str (canonical y m d)) = Some (DateUTC y (m - 1) d)
      \<and> formatDate (DateUTC y (m - 1) d) = canonical y m d)"
proof (intro conjI impI)
  assume r: "yearRep4 ys y"
  have f: "formatDate (DateUTC y (m - 1) d) = canonical y m d"
    using assms(1,2) yearRep4_props(6) [OF r] by (rule parse_then_format)
  have y: "100 \<le> y" using assms(2) by simp
  show "map_option formatDate (parseDate h (Str (ys @ ''-'' @ ms @ ''-'' @ ds))) = Some (canonical y m d)"
    using parse_ymd [OF assms(1) y r assms(3,4)] f by simp
  show "map_option formatDate (parseDate h (Str (ds @ ''/'' @ ms @ ''/'' @ ys))) = Some (canonical y m d)"
    using parse_dmy [OF assms(1,3,4), of ys] r y f by simp
  show "map_option formatDate (parseDate h (Str (ds @ ''-'' @ mon @ ''-'' @ ys))) = Some (canonical y m d)"
    if "monthRep mon m"
    using parse_dmony [OF assms(1) that assms(4), of ys] r y f by simp
next
  assume r: "yearRep2 ys y"
  have f: "formatDate (DateUTC y (m - 1) d) = canonical y m d"
    using assms(1,2) yearRep2_props(6) [OF r] by (intro parse_then_format) simp_all
  show "map_option formatDate (parseDate h (Str (ds @ ''/'' @ ms @ ''/'' @ ys))) = Some (canonical y m d)"
    using parse_dmy [OF assms(1,3,4), of ys] r f by simp
  show "map_option formatDate (parseDate h (Str (ds @ ''-'' @ mon @ ''-'' @ ys))) = Some (canonical y m d)"
    if "monthRep mon m"
    using parse_dmony [OF assms(1) that assms(4), of ys] r f by simp
next
  assume u: "y \<le> 9999"
  show "parseDate h (Str (canonical y m d)) = Some (DateUTC y (m - 1) d)"
    using assms(1,2) u by (rule parse_canonical)
  show "formatDate (DateUTC y (m - 1) d) = canonical y m d"
    using assms(1,2) u by (rule parse_then_format)
qed

theorem parse_format_roundtrip_witness:
  "map_option formatDate (parseDate exampleHost (Str ''2025-11-08'')) = Some ''2025-11-08''
 \<and> map_option formatDate (parseDate exampleHost (Str ''08/11/2025'')) = Some ''2025-11-08''
 \<and> map_option formatDate (parseDate exampleHost (Str ''08-Nov-25'')) = Some ''2025-11-08''"
proof -
  have v: "validDay 2025 11 8" by code_simp
  have y: "(1000::int) \<le> 2025" by simp
  have m: "fieldRep ''11'' 11" by code_simp
  have d: "fieldRep ''08'' 8" by code_simp
  have y4: "yearRep4 ''2025'' 2025" by code_simp
  have y2: "yearRep2 ''25'' 2025" by code_simp
  have mon: "monthRep ''Nov'' 11" by code_simp
  have c: "canonical 2025 11 8 = ''2025-11-08''" by code_simp
  show ?thesis
    using parse_format_roundtrip [OF v y m d, of "''2025''" exampleHost "''Nov''"]
      parse_format_roundtrip [OF v y m d, of "''25''" exampleHost "''Nov''"] y4 y2 mon c
    by simp
qed

text \<open>
  Claim C3 asks, for every valid calendar day, that parseDate followed by formatDate give
  the zero-padded canonical string of the day. Below the year 1000 the code does not:
  formatDate pads the month and the day and leaves the year as it is, so the four-digit
  form \<open>0999-01-01\<close> of 1 January 999 comes back as \<open>999-01-01\<close>, which is not the
  canonical string of that day and which the first pattern does not read again.
\<close>

theorem parse_format_unpadded_year:
  "validDay 999 1 1 \<and> yearRep4 ''0999'' 999 \<and> fieldRep ''01'' 1
 \<and> map_option formatDate (parseDate exampleHost (Str ''0999-01-01'')) = Some ''999-01-01''
 \<and> canonical 999 1 1 = ''0999-01-01''"
  by code_simp

lemma year_start_le: "DayFromYear (1970 + (if 0 \<le> d then d div 366 else d div 365)) \<le> d"
proof (cases "0 \<le> d")
  case True
  then have "0 \<le> d div 366" by simp
  then have "DayFromYear (1970 + d div 366) \<le> 366 * (d div 366)"
    using DayFromYear_upper_ge [of "1970 + d div 366"] by simp
  moreover have "366 * (d div 366) \<le> d" by simp
  ultimately show ?thesis using True by simp
next
  case False
  then have "d div 365 < 0" by simp
  then have "DayFromYear (1970 + d div 365) \<le> 365 * (d div 365)"
    using DayFromYear_upper_le [of "1970 + d div 365"] by simp
  moreover have "365 * (d div 365) \<le> d" by simp
  ultimately show ?thesis using False by simp
qed

lemma yearUp_bounds:
  "DayFromYear y0 \<le> d \<Longrightarrow>
     DayFromYear (yearUp d y0) \<le> d \<and> d < DayFromYear (yearUp d y0 + 1)"
proof (induction d y0 rule: yearUp.induct)
  case (1 d y)
  show ?case
  proof (cases "DayFromYear (y + 1) \<le> d")
    case True
    then show ?thesis using 1(1) [OF True True] by (simp add: yearUp.simps [of d y])
  next
    case False
    then show ?thesis using 1(2) by (simp add: yearUp.simps [of d y])
  qed
qed

lemma YearFromDay_bounds:
  "DayFromYear (YearFromDay d) \<le> d \<and> d < DayFromYear (YearFromDay d + 1)"
  unfolding YearFromDay_def using yearUp_bounds [OF year_start_le] by simp

lemma DayWithinYear_bounds:
  "0 \<le> DayWithinYear n \<and> DayWithinYear n < 365 + InLeapYear (YearFromDay n)"
proof -
  have "DayFromYear (YearFromDay n + 1) = DayFromYear (YearFromDay n) + DaysInYear (YearFromDay n)"
    using DayFromYear_Suc [of "YearFromDay n"] by simp
  then show ?thesis
    using YearFromDay_bounds [of n] InLeapYear_cases [of "YearFromDay n"]
    by (auto simp: DayWithinYear_def)
qed

lemma day_fields_valid: "validDay (YearFromDay n) (MonthFromDay n + 1) (DateFromDay n)"
proof -
  define w where "w = DayWithinYear n"
  define l where "l = InLeapYear (YearFromDay n)"
  have l: "l = 0 \<or> l = 1" using InLeapYear_cases [of "YearFromDay n"] by (auto simp: l_def)
  have w: "0 \<le> w" "w < 365 + l" using DayWithinYear_bounds [of n] by (simp_all add: w_def l_def)
  have "w < 31 \<or> (31 \<le> w \<and> w < 59 + l) \<or> (59 + l \<le> w \<and> w < 90 + l)
      \<or> (90 + l \<le> w \<and> w < 120 + l) \<or> (120 + l \<le> w \<and> w < 151 + l)
      \<or> (151 + l \<le> w \<and> w < 181 + l) \<or> (181 + l \<le> w \<and> w < 212 + l)
      \<or> (212 + l \<le> w \<and> w < 243 + l) \<or> (243 + l \<le> w \<and> w < 273 + l)
      \<or> (273 + l \<le> w \<and> w < 304 + l) \<or> (304 + l \<le> w \<and> w < 334 + l)
      \<or> 334 + l \<le> w"
    by linarith
  then show ?thesis
    unfolding validDay_def DateFromDay_def MonthFromDay_def Let_def
      w_def [symmetric] l_def [symmetric]
    using w l
    by (elim disjE conjE) (simp_all add: monthStart_def DaysInMonth_def l_def [symmetric])
qed


lemma TimeClip_cases: "TimeClip t = Date t \<or> TimeClip t = InvalidDate"
  by (simp add: TimeClip_def)

lemma DateUTC_fields:
  assumes "roundTrips (DateUTC y mo d) y mo d"
  shows "\<exists>n. n = MakeDay (if 0 \<le> y \<and> y \<le> 99 then 1900 + y else y) mo d
           \<and> YearFromDay n = y \<and> MonthFromDay n = mo \<and> DateFromDay n = d"
proof -
  define n where "n = MakeDay (if 0 \<le> y \<and> y \<le> 99 then 1900 + y else y) mo d"
  have e: "DateUTC y mo d = TimeClip (n * msPerDay)" by (simp add: DateUTC_def Let_def n_def)
  have "DateUTC y mo d \<noteq> InvalidDate"
    using assms by (auto simp: roundTrips_def getUTCFullYear_def)
  then have "DateUTC y mo d = Date (n * msPerDay)"
    unfolding e using TimeClip_cases [of "n * msPerDay"] by simp
  then have "YearFromDay n = y \<and> MonthFromDay n = mo \<and> DateFromDay n = d"
    using assms
    by (simp add: roundTrips_def getUTCFullYear_def getUTCMonth_def getUTCDate_def msPerDay_def)
  then show ?thesis using n_def by blast
qed

lemma monthStart_nonneg:
  assumes "1 \<le> m" "m \<le> 12"
  shows "0 \<le> monthStart (InLeapYear y) (nat (m - 1))"
  using month_cases [OF assms] InLeapYear_cases [of y]
  by (elim insertE emptyE disjE conjE) (simp_all add: monthStart_def)

lemma YearFromDay_ge: "DayFromYear y \<le> n \<Longrightarrow> y \<le> YearFromDay n"
proof (rule ccontr)
  assume a: "DayFromYear y \<le> n" and "\<not> y \<le> YearFromDay n"
  then have "YearFromDay n + 1 \<le> y" by simp
  then have "DayFromYear (YearFromDay n + 1) \<le> DayFromYear y" by (rule DayFromYear_mono)
  then show False using a YearFromDay_bounds [of n] by simp
qed

lemma roundTrips_calendar:
  assumes "roundTrips (DateUTC y (m - 1) d) y (m - 1) d"
  shows "validDay y m d \<and> \<not> (0 \<le> y \<and> y \<le> 99)"
proof -
  obtain n where n: "n = MakeDay (if 0 \<le> y \<and> y \<le> 99 then 1900 + y else y) (m - 1) d"
      "YearFromDay n = y" "MonthFromDay n = m - 1" "DateFromDay n = d"
    using DateUTC_fields [OF assms] by blast
  have v: "validDay y m d" using day_fields_valid [of n] n(2,3,4) by simp
  have "\<not> (0 \<le> y \<and> y \<le> 99)"
  proof
    assume c: "0 \<le> y \<and> y \<le> 99"
    have m: "1 \<le> m" "m \<le> 12" and d: "1 \<le> d" using v by (simp_all add: validDay_def)
    have "DayFromYear (1900 + y) \<le> n"
      using MakeDay_valid [OF m, of "1900 + y" d] monthStart_nonneg [OF m, of "1900 + y"] d n(1) c
      by simp
    then have "1900 + y \<le> y" using YearFromDay_ge n(2) by blast
    then show False by simp
  qed
  then show ?thesis using v by simp
qed

lemma roundTrips_iff:
  assumes "0 \<le> y" "y \<le> 9999"
  shows "roundTrips (DateUTC y (m - 1) d) y (m - 1) d \<longleftrightarrow> 100 \<le> y \<and> validDay y m d"
  using roundTrips_calendar [of y m d] DateUTC_roundTrips [of y m d] assms by auto

lemma digitsVal_year: "length p \<le> 4 \<Longrightarrow> int (digitsVal p) \<le> 9999"
proof -
  assume "length p \<le> 4"
  then have "(10::nat) ^ length p \<le> 10 ^ 4" by (intro power_increasing) simp_all
  then have "digitsVal p < 10 ^ 4" using digitsVal_lt [of p] by linarith
  then show ?thesis by simp
qed

lemma century_range: "0 \<le> y \<Longrightarrow> y \<le> 9999 \<Longrightarrow> 0 \<le> century y \<and> century y \<le> 9999"
  by (simp add: century_def)

lemma matchPattern1_groups:
  assumes "matchPattern1 s = Some (p1, p2, p3)"
  shows "parseInt p1 = Some (int (digitsVal p1)) \<and> parseInt p2 = Some (int (digitsVal p2))
       \<and> parseInt p3 = Some (int (digitsVal p3)) \<and> int (digitsVal p1) \<le> 9999"
proof -
  have g: "allDigits p1 \<and> length p1 = 4 \<and> allDigits p2 \<and> 1 \<le> length p2
         \<and> allDigits p3 \<and> 1 \<le> length p3"
    using assms by (auto simp: matchPattern1_def split: list.splits if_splits)
  then have "p1 \<noteq> []" "p2 \<noteq> []" "p3 \<noteq> []" by auto
  then show ?thesis using g parseInt_digits digitsVal_year [of p1] by simp
qed

lemma matchPattern2_groups:
  assumes "matchPattern2 s = Some (p1, p2, p3)"
  shows "parseInt p1 = Some (int (digitsVal p1)) \<and> parseInt p2 = Some (int (digitsVal p2))
       \<and> parseInt p3 = Some (int (digitsVal p3)) \<and> int (digitsVal p3) \<le> 9999"
proof -
  have g: "allDigits p1 \<and> 1 \<le> length p1 \<and> allDigits p2 \<and> 1 \<le> length p2
         \<and> allDigits p3 \<and> 2 \<le> length p3 \<and> length p3 \<le> 4"
    using assms by (auto simp: matchPattern2_def split: list.splits if_splits)
  then have "p1 \<noteq> []" "p2 \<noteq> []" "p3 \<noteq> []" by auto
  then show ?thesis using g parseInt_digits digitsVal_year [of p3] by simp
qed

lemma matchPattern3_groups:
  assumes "matchPattern3 s = Some (p1, p2, p3)"
  shows "parseInt p1 = Some (int (digitsVal p1))
       \<and> parseInt p3 = Some (int (digitsVal p3)) \<and> int (digitsVal p3) \<le> 9999"
proof -
  have g: "allDigits p1 \<and> 1 \<le> length p1 \<and> allDigits p3 \<and> 2 \<le> length p3 \<and> length p3 \<le> 4"
    using assms by (auto simp: matchPattern3_def split: list.splits if_splits)
  then have "p1 \<noteq> []" "p3 \<noteq> []" by auto
  then show ?thesis using g parseInt_digits digitsVal_year [of p3] by simp
qed

lemma tryPattern1_written:
  "tryPattern1 s =
     (case written1 s of
        None \<Rightarrow> None
      | Some (y, m, d) \<Rightarrow> if 100 \<le> y \<and> validDay y m d then Some (DateUTC y (m - 1) d) else None)"
proof (cases "matchPattern1 s")
  case None
  then show ?thesis by (simp add: tryPattern1_def written1_def)
next
  case (Some g)
  obtain p1 p2 p3 where g: "g = (p1, p2, p3)" by (cases g) auto
  have i: "parseInt p1 = Some (int (digitsVal p1))" "parseInt p2 = Some (int (digitsVal p2))"
      "parseInt p3 = Some (int (digitsVal p3))" "int (digitsVal p1) \<le> 9999"
    using matchPattern1_groups [of s p1 p2 p3] Some g by simp_all
  have "roundTrips (DateUTC (int (digitsVal p1)) (int (digitsVal p2) - 1) (int (digitsVal p3)))
          (int (digitsVal p1)) (int (digitsVal p2) - 1) (int (digitsVal p3))
      \<longleftrightarrow> 100 \<le> int (digitsVal p1)
          \<and> validDay (int (digitsVal p1)) (int (digitsVal p2)) (int (digitsVal p3))"
    using i(4) by (intro roundTrips_iff) simp_all
  then show ?thesis using Some g i(1,2,3)
    by (simp add: tryPattern1_def written1_def Let_def)
qed

lemma tryPattern2_written:
  "tryPattern2 s =
     (case written2 s of
        None \<Rightarrow> None
      | Some (y, m, d) \<Rightarrow> if 100 \<le> y \<and> validDay y m d then Some (DateUTC y (m - 1) d) else None)"
proof (cases "matchPattern2 s")
  case None
  then show ?thesis by (simp add: tryPattern2_def written2_def)
next
  case (Some g)
  obtain p1 p2 p3 where g: "g = (p1, p2, p3)" by (cases g) auto
  have i: "parseInt p1 = Some (int (digitsVal p1))" "parseInt p2 = Some (int (digitsVal p2))"
      "parseInt p3 = Some (int (digitsVal p3))" "int (digitsVal p3) \<le> 9999"
    using matchPattern2_groups [of s p1 p2 p3] Some g by simp_all
  define y where "y = century (int (digitsVal p3))"
  have y: "0 \<le> y" "y \<le> 9999" using century_range [of "int (digitsVal p3)"] i(4) by (simp_all add: y_def)
  have r: "roundTrips (DateUTC y (int (digitsVal p2) - 1) (int (digitsVal p1)))
          y (int (digitsVal p2) - 1) (int (digitsVal p1))
      \<longleftrightarrow> 100 \<le> y \<and> validDay y (int (digitsVal p2)) (int (digitsVal p1))"
    using y by (rule roundTrips_iff)
  have c: "(if int (digitsVal p3) < 100 then int (digitsVal p3) + 2000 else int (digitsVal p3)) = y"
    by (simp add: y_def century_def)
  show ?thesis using Some g i(1,2,3) r
    by (simp add: tryPattern2_def written2_def Let_def y_def century_def)
qed

lemma tryPattern3_written:
  "tryPattern3 s =
     (case written3 s of
        None \<Rightarrow> None
      | Some (y, m, d) \<Rightarrow> if 100 \<le> y \<and> validDay y m d then Some (DateUTC y (m - 1) d) else None)"
proof (cases "matchPattern3 s")
  case None
  then show ?thesis by (simp add: tryPattern3_def written3_def)
next
  case (Some g)
  obtain p1 p2 p3 where g: "g = (p1, p2, p3)" by (cases g) auto
  have i: "parseInt p1 = Some (int (digitsVal p1))"
      "parseInt p3 = Some (int (digitsVal p3))" "int (digitsVal p3) \<le> 9999"
    using matchPattern3_groups [of s p1 p2 p3] Some g by simp_all
  define y where "y = century (int (digitsVal p3))"
  have y: "0 \<le> y" "y \<le> 9999" using century_range [of "int (digitsVal p3)"] i(3) by (simp_all add: y_def)
  have c: "(if int (digitsVal p3) < 100 then int (digitsVal p3) + 2000 else int (digitsVal p3)) = y"
    by (simp add: y_def century_def)
  show ?thesis
  proof (cases "map_of monthMap (toLowerCase p2)")
    case None
    then show ?thesis using Some g i(1,2)
      by (simp add: tryPattern3_def written3_def)
  next
    case (Some mo)
    have r: "roundTrips (DateUTC y (mo + 1 - 1) (int (digitsVal p1))) y (mo + 1 - 1) (int (digitsVal p1))
      \<longleftrightarrow> 100 \<le> y \<and> validDay y (mo + 1) (int (digitsVal p1))"
      using y by (rule roundTrips_iff)
    show ?thesis using \<open>matchPattern3 s = Some g\<close> Some g i(1,2) r
      by (simp add: tryPattern3_def written3_def Let_def y_def century_def)
  qed
qed

lemma tryPattern_calendar:
  "tryPattern1 s = None \<longleftrightarrow> \<not> calendarDay (written1 s)"
  "tryPattern2 s = None \<longleftrightarrow> \<not> calendarDay (written2 s)"
  "tryPattern3 s = None \<longleftrightarrow> \<not> calendarDay (written3 s)"
  unfolding tryPattern1_written tryPattern2_written tryPattern3_written
  by (auto simp: calendarDay_def split: option.splits)

lemma parseDateStr_firstDay:
  assumes "trim s \<noteq> []"
  shows "parseDateStr h s =
     (case firstDay (trim s) of
        Some (y, m, d) \<Rightarrow> Some (DateUTC y (m - 1) d)
      | None \<Rightarrow> (case parseDateString h (trim s) of
                   Date t \<Rightarrow> Some (utcOfLocal h t) | InvalidDate \<Rightarrow> None))"
  using assms
  unfolding parseDateStr_def Let_def tryPattern1_written tryPattern2_written tryPattern3_written
  by (auto simp: firstDay_def calendarDay_def split: option.splits)


lemma patterns_invalid_date:
  "\<not> calendarDay (written1 ''invalid-date'')" "\<not> calendarDay (written2 ''invalid-date'')"
  "\<not> calendarDay (written3 ''invalid-date'')" "trim ''invalid-date'' = ''invalid-date''"
  by code_simp+

text \<open>
  Claim C2, as amended. On a string, parseDate gives null when the trimmed string is
  empty, and when no pattern gives a date that round-trips (none matches, or the fields
  of the one that matches are not a day of the calendar from the year 100 on, such as day
  31 of a 30-day month) and the host's generic parsing of the trimmed string fails as
  well. It gives the date of the day when a pattern gives a calendar day. A match that does not round-trip does not by
  itself give null: a string that neither the first nor the third pattern matches, and
  in which the second finds no calendar day, is handed to the host's generic parser, and
  the date that the host reads is returned. On \<open>invalid-date\<close> no pattern matches, so the
  result is null whenever the host's parser rejects that string.
\<close>

theorem parseDate_null_cases:
  "(trim s = [] \<longrightarrow> parseDate h (Str s) = None)
 \<and> (\<not> calendarDay (written1 (trim s)) \<and> \<not> calendarDay (written2 (trim s))
      \<and> \<not> calendarDay (written3 (trim s)) \<and> parseDateString h (trim s) = InvalidDate
    \<longrightarrow> parseDate h (Str s) = None)
 \<and> (trim s \<noteq> [] \<and> firstDay (trim s) = Some (y, m, d)
    \<longrightarrow> parseDate h (Str s) = Some (DateUTC y (m - 1) d))
 \<and> (trim s \<noteq> [] \<and> matchPattern1 (trim s) = None \<and> matchPattern3 (trim s) = None
      \<and> \<not> calendarDay (written2 (trim s)) \<and> parseDateString h (trim s) = Date t
    \<longrightarrow> parseDate h (Str s) = Some (utcOfLocal h t))
 \<and> (parseDateString h ''invalid-date'' = InvalidDate
    \<longrightarrow> parseDate h (Str ''invalid-date'') = None)"
proof (intro conjI impI)
  assume "trim s = []"
  then show "parseDate h (Str s) = None" by (simp add: parseDate_def parseDateStr_def)
next
  assume a: "\<not> calendarDay (written1 (trim s)) \<and> \<not> calendarDay (written2 (trim s))
      \<and> \<not> calendarDay (written3 (trim s)) \<and> parseDateString h (trim s) = InvalidDate"
  then have f: "firstDay (trim s) = None" by (simp add: firstDay_def)
  show "parseDate h (Str s) = None"
  proof (cases "trim s = []")
    case True
    then show ?thesis by (simp add: parseDate_def parseDateStr_def)
  next
    case False
    then show ?thesis using a f by (simp add: parseDate_def parseDateStr_firstDay)
  qed
next
  assume "trim s \<noteq> [] \<and> firstDay (trim s) = Some (y, m, d)"
  then show "parseDate h (Str s) = Some (DateUTC y (m - 1) d)"
    by (simp add: parseDate_def parseDateStr_firstDay)
next
  assume a: "trim s \<noteq> [] \<and> matchPattern1 (trim s) = None \<and> matchPattern3 (trim s) = None
      \<and> \<not> calendarDay (written2 (trim s)) \<and> parseDateString h (trim s) = Date t"
  then have "firstDay (trim s) = None"
    by (simp add: firstDay_def written1_def written3_def calendarDay_def)
  then show "parseDate h (Str s) = Some (utcOfLocal h t)"
    using a by (simp add: parseDate_def parseDateStr_firstDay)
next
  assume a: "parseDateString h ''invalid-date'' = InvalidDate"
  have "firstDay (trim ''invalid-date'') = None"
    using patterns_invalid_date by (simp add: firstDay_def)
  then show "parseDate h (Str ''invalid-date'') = None"
    using a patterns_invalid_date(4) by (simp add: parseDate_def parseDateStr_firstDay)
qed

lemma blank_string: "trim ''   '' = []"
  by code_simp

lemma day_31_of_april:
  "matchPattern2 (trim ''31/04/2025'') = Some (''31'', ''04'', ''2025'')"
  "written2 (trim ''31/04/2025'') = Some (2025, 4, 31)"
  "\<not> validDay 2025 4 31"
  "\<not> calendarDay (written1 (trim ''31/04/2025''))"
  "\<not> calendarDay (written2 (trim ''31/04/2025''))"
  "\<not> calendarDay (written3 (trim ''31/04/2025''))"
  "parseDateString exampleHost (trim ''31/04/2025'') = InvalidDate"
  by code_simp+

lemma host_rejects: "parseDateString exampleHost ''invalid-date'' = InvalidDate"
  by code_simp

lemma day_8_of_november:
  "trim '' 08/11/2025 '' \<noteq> []" "firstDay (trim '' 08/11/2025 '') = Some (2025, 11, 8)"
  by code_simp+

lemma us_date:
  "trim ''12/25/2025'' \<noteq> []" "matchPattern1 (trim ''12/25/2025'') = None"
  "matchPattern3 (trim ''12/25/2025'') = None"
  "\<not> calendarDay (written2 (trim ''12/25/2025''))"
  "parseDateString exampleHost (trim ''12/25/2025'') = Date (MakeDay 2025 11 25 * msPerDay)"
  "utcOfLocal exampleHost (MakeDay 2025 11 25 * msPerDay) = DateUTC 2025 11 25"
  by code_simp+

theorem parseDate_null_cases_witness:
  "parseDate exampleHost (Str ''   '') = None
 \<and> written2 (trim ''31/04/2025'') = Some (2025, 4, 31) \<and> \<not> validDay 2025 4 31
 \<and> parseDate exampleHost (Str ''31/04/2025'') = None
 \<and> parseDate exampleHost (Str '' 08/11/2025 '') = Some (DateUTC 2025 10 8)
 \<and> parseDate exampleHost (Str ''12/25/2025'') = Some (DateUTC 2025 11 25)
 \<and> parseDate exampleHost (Str ''invalid-date'') = None"
proof -
  have a: "parseDate exampleHost (Str ''   '') = None"
    using parseDate_null_cases [of "''   ''" exampleHost] blank_string by blast
  have b: "parseDate exampleHost (Str ''31/04/2025'') = None"
    using parseDate_null_cases [of "''31/04/2025''" exampleHost] day_31_of_april(4-7) by blast
  have "parseDate exampleHost (Str '' 08/11/2025 '') = Some (DateUTC 2025 (11 - 1) 8)"
    using parseDate_null_cases [of "'' 08/11/2025 ''" exampleHost 2025 11 8] day_8_of_november
    by blast
  then have c: "parseDate exampleHost (Str '' 08/11/2025 '') = Some (DateUTC 2025 10 8)" by simp
  have "parseDate exampleHost (Str ''12/25/2025'')
      = Some (utcOfLocal exampleHost (MakeDay 2025 11 25 * msPerDay))"
    using parseDate_null_cases [of "''12/25/2025''" exampleHost _ _ _ "MakeDay 2025 11 25 * msPerDay"]
      us_date(1-5) by blast
  then have d: "parseDate exampleHost (Str ''12/25/2025'') = Some (DateUTC 2025 11 25)"
    unfolding us_date(6) .
  have e: "parseDate exampleHost (Str ''invalid-date'') = None"
    using parseDate_null_cases [of _ exampleHost] host_rejects by blast
  show ?thesis using a b c d e day_31_of_april(2,3) by simp
qed

text \<open>
  The claim as first stated fails on the US date 12/25/2025: the second pattern matches,
  its date (month 25) does not round-trip, and the host's generic parsing then accepts
  the string, which is what the fallback is there for.
\<close>

theorem parseDate_falls_through:
  "matchPattern2 ''12/25/2025'' = Some (''12'', ''25'', ''2025'')
 \<and> \<not> roundTrips (DateUTC 2025 24 12) 2025 24 12
 \<and> map_option formatDate (parseDate exampleHost (Str ''12/25/2025'')) = Some ''2025-12-25''"
  by code_simp

section \<open>Properties of the dedup filter\<close>

lemma digits_pad_split:
  fixes n :: nat
  defines "m \<equiv> digitsOf n"
  defines "p \<equiv> (if length m \<le> 2 then replicate (3 - length m) CHR ''0'' @ m else m)"
  shows "take (length p - 2) p = digitsOf (n div 100)
       \<and> drop (length p - 2) p = [digitChar (n div 10 mod 10), digitChar (n mod 10)]"
proof -
  consider "n < 10" | "10 \<le> n" "n < 100" | "100 \<le> n" by linarith
  then show ?thesis
  proof cases
    case 1
    then have "m = [digitChar n]" by (simp add: m_def digitsOf.simps [of n])
    then have "p = [CHR ''0'', CHR ''0'', digitChar n]" by (simp add: p_def numeral_3_eq_3)
    then show ?thesis using 1 by (simp add: digitsOf.simps [of 0] digitChar_def)
  next
    case 2
    then have "n div 10 < 10" by simp
    then have "m = [digitChar (n div 10), digitChar (n mod 10)]"
      using 2 by (simp add: m_def digitsOf.simps [of n] digitsOf.simps [of "n div 10"])
    then have "p = [CHR ''0'', digitChar (n div 10), digitChar (n mod 10)]" by (simp add: p_def)
    then show ?thesis using 2 by (simp add: digitsOf.simps [of 0] digitChar_def)
  next
    case 3
    then have a: "m = digitsOf (n div 10) @ [digitChar (n mod 10)]"
      by (simp add: m_def digitsOf.simps [of n])
    have "\<not> n div 10 < 10" using 3 by simp
    then have b: "digitsOf (n div 10) = digitsOf (n div 10 div 10) @ [digitChar (n div 10 mod 10)]"
      by (simp add: digitsOf.simps [of "n div 10"])
    have c: "n div 10 div 10 = n div 100" by (simp add: div_mult2_eq [symmetric])
    have m: "m = digitsOf (n div 100) @ [digitChar (n div 10 mod 10), digitChar (n mod 10)]"
      using a b c by simp
    have "digitsOf (n div 100) \<noteq> []" by (rule digitsOf_nonempty)
    then have "length m > 2" using m by (cases "digitsOf (n div 100)") simp_all
    then have "p = m" by (simp add: p_def)
    then show ?thesis using m by simp
  qed
qed

lemma toFixed_two_decimals:
  assumes "\<bar>x\<bar> < 10 ^ 21"
  shows "toFixed h 2 x = twoDecimals x"
proof -
  define n where "n = nat \<lfloor>\<bar>x\<bar> * 100 + 1 / 2\<rfloor>"
  define m where "m = digitsOf n"
  define p where "p = (if length m \<le> 2 then replicate (3 - length m) CHR ''0'' @ m else m)"
  have ax: "(if x < 0 then - x else x) = \<bar>x\<bar>" by simp
  have small: "\<not> (10 ^ 21 \<le> \<bar>x\<bar>)" using assms by simp
  have e: "toFixed h 2 x
      = (if x < 0 then ''-'' else []) @ take (length p - 2) p @ ''.'' @ drop (length p - 2) p"
    unfolding toFixed_def Let_def ax p_def m_def n_def using small by simp
  have "take (length p - 2) p = digitsOf (n div 100)
      \<and> drop (length p - 2) p = [digitChar (n div 10 mod 10), digitChar (n mod 10)]"
    unfolding p_def m_def by (rule digits_pad_split)
  then show ?thesis
    unfolding e twoDecimals_def Let_def n_def [symmetric] by simp
qed

lemma filterLoop_eq:
  "filterLoop h K staged new dups =
     \<lparr>newOnes = new @ filter (\<lambda>t. makeTransactionKey h t \<notin> K) staged,
      duplicateCount = dups + length (filter (\<lambda>t. makeTransactionKey h t \<in> K) staged)\<rparr>"
  by (induction staged arbitrary: new dups) (simp_all add: Let_def)

text \<open>
  Claim C6. The key of a transaction is its trimmed date, its trimmed and lower-cased
  description and its amount under \<open>toFixed(2)\<close>, joined by vertical bars; below 10^21
  that is the amount with two decimals. filterDuplicateStaged partitions the staged list
  by membership of the key in the given set: newOnes is the sublist of non-members in
  input order and duplicateCount the number of members. The witness is the test of
  dedupe.test.ts: one staged transaction matches, one does not.
\<close>

theorem dedupe_key_and_partition:
  "makeTransactionKey h t =
     trim (date t) @ ''|'' @ toLowerCase (trim (description t)) @ ''|'' @ toFixed h 2 (amount t)
 \<and> (\<bar>amount t\<bar> < 10 ^ 21 \<longrightarrow> toFixed h 2 (amount t) = twoDecimals (amount t))
 \<and> newOnes (filterDuplicateStaged h staged K) = filter (\<lambda>s. makeTransactionKey h s \<notin> K) staged
 \<and> duplicateCount (filterDuplicateStaged h staged K)
     = length (filter (\<lambda>s. makeTransactionKey h s \<in> K) staged)
 \<and> length (newOnes (filterDuplicateStaged h staged K))
     + duplicateCount (filterDuplicateStaged h staged K) = length staged"
proof (intro conjI impI)
  show "makeTransactionKey h t =
     trim (date t) @ ''|'' @ toLowerCase (trim (description t)) @ ''|'' @ toFixed h 2 (amount t)"
    by (simp add: makeTransactionKey_def Let_def)
  show "toFixed h 2 (amount t) = twoDecimals (amount t)" if "\<bar>amount t\<bar> < 10 ^ 21"
    using that by (rule toFixed_two_decimals)
  show "newOnes (filterDuplicateStaged h staged K) = filter (\<lambda>s. makeTransactionKey h s \<notin> K) staged"
    by (simp add: filterDuplicateStaged_def filterLoop_eq)
  show "duplicateCount (filterDuplicateStaged h staged K)
     = length (filter (\<lambda>s. makeTransactionKey h s \<in> K) staged)"
    by (simp add: filterDuplicateStaged_def filterLoop_eq)
  show "length (newOnes (filterDuplicateStaged h staged K))
     + duplicateCount (filterDuplicateStaged h staged K) = length staged"
    using sum_length_filter_compl [of "\<lambda>s. makeTransactionKey h s \<in> K" staged]
    by (simp add: filterDuplicateStaged_def filterLoop_eq)
qed

lemma key_base: "makeTransactionKey h base = ''2025-03-01|test item|123.46''"
  by (simp add: makeTransactionKey_def base_def Let_def trim_def isSpace_def toLowerCase_def
      toLowerChar_def toFixed_def digitsOf.simps digitChar_def)

lemma key_base50: "makeTransactionKey h (base\<lparr>amount := 50\<rparr>) = ''2025-03-01|test item|50.00''"
  by (simp add: makeTransactionKey_def base_def Let_def trim_def isSpace_def toLowerCase_def
      toLowerChar_def toFixed_def digitsOf.simps digitChar_def)

theorem dedupe_key_and_partition_witness:
  "makeTransactionKey exampleHost base = ''2025-03-01|test item|123.46''
 \<and> newOnes (filterDuplicateStaged exampleHost [base, base\<lparr>amount := 50\<rparr>]
       {makeTransactionKey exampleHost base}) = [base\<lparr>amount := 50\<rparr>]
 \<and> duplicateCount (filterDuplicateStaged exampleHost [base, base\<lparr>amount := 50\<rparr>]
       {makeTransactionKey exampleHost base}) = 1"
proof -
  let ?staged = "[base, base\<lparr>amount := 50\<rparr>]"
  let ?K = "{makeTransactionKey exampleHost base}"
  note T = dedupe_key_and_partition [of exampleHost base ?staged ?K]
  have n: "newOnes (filterDuplicateStaged exampleHost ?staged ?K)
      = filter (\<lambda>s. makeTransactionKey exampleHost s \<notin> ?K) ?staged"
    using T by blast
  have c: "duplicateCount (filterDuplicateStaged exampleHost ?staged ?K)
      = length (filter (\<lambda>s. makeTransactionKey exampleHost s \<in> ?K) ?staged)"
    using T by blast
  show ?thesis unfolding n c by (simp add: key_base key_base50)
qed

section \<open>Properties of the statement parser\<close>

lemma processRow_amount:
  assumes "processRow h cmap di ni wi ci row = Some t"
  shows "amount t \<noteq> 0
       \<and> (if parseAmount h (cellAt row ci) > 0 then amount t = parseAmount h (cellAt row ci)
          else parseAmount h (cellAt row wi) > 0 \<and> amount t = - parseAmount h (cellAt row wi))
       \<and> (type t = Credit \<longleftrightarrow> amount t \<ge> 0)"
  using assms
  by (auto simp: processRow_def Let_def split: if_splits option.splits)

lemma processRow_skips:
  assumes "\<not> parseAmount h (cellAt row ci) > 0" "\<not> parseAmount h (cellAt row wi) > 0"
  shows "processRow h cmap di ni wi ci row = None"
  using assms by (simp add: processRow_def Let_def split: option.splits)

lemma map_filter_mem: "t \<in> set (List.map_filter f xs) \<Longrightarrow> \<exists>x \<in> set xs. f x = Some t"
  by (auto simp: List.map_filter_def)

lemma findHeaderRow_None:
  "findHeaderRow h aoa k = None \<longleftrightarrow> (\<forall>row \<in> set aoa. \<not> holdsHeaders h row)"
  by (induction aoa arbitrary: k) (simp_all add: holdsHeaders_def Let_def)

lemma firstHeaderAt_Cons:
  "firstHeaderAt h (r # rs) i \<longleftrightarrow>
     (if holdsHeaders h r then i = 0 else \<exists>j. i = Suc j \<and> firstHeaderAt h rs j)"
  by (cases i) (auto simp: firstHeaderAt_def All_less_Suc2)

lemma findHeaderRow_Some:
  "findHeaderRow h aoa k = Some n \<longleftrightarrow> (\<exists>i. n = k + i \<and> firstHeaderAt h aoa i)"
proof (induction aoa arbitrary: k)
  case Nil
  show ?case by (simp add: firstHeaderAt_def)
next
  case (Cons r rs)
  show ?case
  proof (cases "holdsHeaders h r")
    case True
    then show ?thesis by (auto simp: firstHeaderAt_Cons holdsHeaders_def Let_def)
  next
    case False
    then have "findHeaderRow h (r # rs) k = findHeaderRow h rs (k + 1)"
      by (auto simp: holdsHeaders_def Let_def)
    then show ?thesis using False Cons [of "k + 1"] by (auto simp: firstHeaderAt_Cons)
  qed
qed

lemma firstHeaderAt_unique: "firstHeaderAt h aoa i \<Longrightarrow> firstHeaderAt h aoa j \<Longrightarrow> i = j"
  unfolding firstHeaderAt_def by (meson nat_neq_iff)

lemma firstIndex_Cons:
  "firstIndex (y # ys) x i \<longleftrightarrow> (if y = x then i = 0 else \<exists>j. i = Suc j \<and> firstIndex ys x j)"
  by (cases i) (auto simp: firstIndex_def All_less_Suc2)

lemma indexOf_Some_iff: "indexOf xs x = Some i \<longleftrightarrow> firstIndex xs x i"
proof (induction xs arbitrary: i)
  case Nil
  show ?case by (simp add: firstIndex_def)
next
  case (Cons y ys)
  show ?case by (auto simp: firstIndex_Cons Cons)
qed

lemma indexOf_None_iff: "indexOf xs x = None \<longleftrightarrow> x \<notin> set xs"
  by (induction xs) auto

lemma header_columns:
  assumes "holdsHeaders h row"
  shows "\<exists>di ni. indexOf (headerCells h row) ''date'' = Some di
            \<and> indexOf (headerCells h row) ''narration'' = Some ni"
  using assms unfolding holdsHeaders_def
  by (metis indexOf_None_iff not_Some_eq)

lemma processXlsData_no_header:
  assumes "aoa \<noteq> []" "\<forall>row \<in> set aoa. \<not> holdsHeaders h row"
  shows "processXlsData h cmap aoa = Inl HeadersNotFound"
proof -
  have "findHeaderRow h aoa 0 = None" using assms(2) by (simp only: findHeaderRow_None)
  then show ?thesis using assms(1) by (simp add: processXlsData_def)
qed

lemma processXlsData_missing:
  assumes "firstHeaderAt h aoa i"
    and "''withdrawal amt.'' \<notin> set (headerCells h (aoa ! i)) \<or> ''deposit amt.'' \<notin> set (headerCells h (aoa ! i))"
  shows "processXlsData h cmap aoa = Inl RequiredColumnsMissing"
proof -
  let ?hd = "headerCells h (aoa ! i)"
  have f: "findHeaderRow h aoa 0 = Some i" using assms(1) findHeaderRow_Some [of h aoa 0 i] by simp
  have ne: "aoa \<noteq> []" using assms(1) by (auto simp: firstHeaderAt_def)
  have "indexOf ?hd ''withdrawal amt.'' = None \<or> indexOf ?hd ''deposit amt.'' = None"
    using assms(2) unfolding indexOf_None_iff by blast
  then show ?thesis using f ne
    by (elim disjE) (simp_all add: processXlsData_def Let_def split: option.split)
qed

lemma processXlsData_rows:
  assumes "firstHeaderAt h aoa k"
    and "firstIndex (headerCells h (aoa ! k)) ''date'' di"
    and "firstIndex (headerCells h (aoa ! k)) ''narration'' ni"
    and "firstIndex (headerCells h (aoa ! k)) ''withdrawal amt.'' wi"
    and "firstIndex (headerCells h (aoa ! k)) ''deposit amt.'' ci"
  shows "processXlsData h cmap aoa
       = Inr (List.map_filter (processRow h cmap di ni wi ci) (drop (k + 1) aoa))"
proof -
  have f: "findHeaderRow h aoa 0 = Some k" using assms(1) findHeaderRow_Some [of h aoa 0 k] by simp
  have ne: "aoa \<noteq> []" using assms(1) by (auto simp: firstHeaderAt_def)
  show ?thesis using f ne assms(2-5) [folded indexOf_Some_iff]
    by (simp add: processXlsData_def Let_def del: indexOf.simps)
qed

lemma processXlsData_cases:
  "aoa = []
 \<or> (aoa \<noteq> [] \<and> (\<forall>row \<in> set aoa. \<not> holdsHeaders h row))
 \<or> (\<exists>i. firstHeaderAt h aoa i
      \<and> \<not> (''withdrawal amt.'' \<in> set (headerCells h (aoa ! i)) \<and> ''deposit amt.'' \<in> set (headerCells h (aoa ! i))))
 \<or> (\<exists>k di ni wi ci. firstHeaderAt h aoa k
      \<and> firstIndex (headerCells h (aoa ! k)) ''date'' di
      \<and> firstIndex (headerCells h (aoa ! k)) ''narration'' ni
      \<and> firstIndex (headerCells h (aoa ! k)) ''withdrawal amt.'' wi
      \<and> firstIndex (headerCells h (aoa ! k)) ''deposit amt.'' ci)"
proof (cases "findHeaderRow h aoa 0")
  case None
  then show ?thesis unfolding findHeaderRow_None by blast
next
  case (Some k)
  then have fk: "firstHeaderAt h aoa k" using findHeaderRow_Some [of h aoa 0 k] by simp
  let ?hd = "headerCells h (aoa ! k)"
  have hh: "holdsHeaders h (aoa ! k)" using fk by (simp add: firstHeaderAt_def)
  obtain di ni where d: "indexOf ?hd ''date'' = Some di" "indexOf ?hd ''narration'' = Some ni"
    using header_columns [OF hh] by blast
  show ?thesis
  proof (cases "''withdrawal amt.'' \<notin> set ?hd \<or> ''deposit amt.'' \<notin> set ?hd")
    case True
    then show ?thesis using fk by blast
  next
    case False
    then obtain wi ci where w: "indexOf ?hd ''withdrawal amt.'' = Some wi" "indexOf ?hd ''deposit amt.'' = Some ci"
      by (metis indexOf_None_iff not_Some_eq)
    show ?thesis using fk d w unfolding indexOf_Some_iff by blast
  qed
qed


text \<open>
  Claim C4. A row yields a transaction only if its deposit or its withdrawal is positive
  (a row with neither is skipped); the amount is the deposit when that is positive and
  minus the withdrawal otherwise, so it is never zero; and the type is credit exactly
  when the amount is not negative. What the parser returns for a sheet is exactly this,
  row by row: the header row is the first row that holds both headers, the four columns
  are the first positions of their names in that row, and the transactions are the
  results for the rows after the header row, in order, each with the amount and type
  that its own deposit and withdrawal cells give.
\<close>

theorem parsed_amount_sign:
  "(processRow h cmap di ni wi ci row = Some r \<longrightarrow>
      amount r \<noteq> 0
    \<and> (if parseAmount h (cellAt row ci) > 0 then amount r = parseAmount h (cellAt row ci)
       else parseAmount h (cellAt row wi) > 0 \<and> amount r = - parseAmount h (cellAt row wi))
    \<and> (type r = Credit \<longleftrightarrow> amount r \<ge> 0))
 \<and> (\<not> parseAmount h (cellAt row ci) > 0 \<and> \<not> parseAmount h (cellAt row wi) > 0 \<longrightarrow>
      processRow h cmap di ni wi ci row = None)
 \<and> (processXlsData h cmap aoa = Inr txs \<and> aoa \<noteq> [] \<longrightarrow>
      (\<exists>k dc nc wc cc.
          firstHeaderAt h aoa k
        \<and> firstIndex (headerCells h (aoa ! k)) ''date'' dc
        \<and> firstIndex (headerCells h (aoa ! k)) ''narration'' nc
        \<and> firstIndex (headerCells h (aoa ! k)) ''withdrawal amt.'' wc
        \<and> firstIndex (headerCells h (aoa ! k)) ''deposit amt.'' cc
        \<and> txs = List.map_filter (processRow h cmap dc nc wc cc) (drop (k + 1) aoa)
        \<and> (\<forall>t \<in> set txs.
              amount t \<noteq> 0 \<and> (type t = Credit \<longleftrightarrow> amount t \<ge> 0)
            \<and> (\<exists>src \<in> set (drop (k + 1) aoa).
                  processRow h cmap dc nc wc cc src = Some t
                \<and> (if parseAmount h (cellAt src cc) > 0
                   then amount t = parseAmount h (cellAt src cc)
                   else parseAmount h (cellAt src wc) > 0
                      \<and> amount t = - parseAmount h (cellAt src wc))))))"
proof (intro conjI impI)
  assume "processRow h cmap di ni wi ci row = Some r"
  then show "amount r \<noteq> 0"
    and "if parseAmount h (cellAt row ci) > 0 then amount r = parseAmount h (cellAt row ci)
       else parseAmount h (cellAt row wi) > 0 \<and> amount r = - parseAmount h (cellAt row wi)"
    and "type r = Credit \<longleftrightarrow> amount r \<ge> 0"
    using processRow_amount by blast+
next
  assume "\<not> parseAmount h (cellAt row ci) > 0 \<and> \<not> parseAmount h (cellAt row wi) > 0"
  then show "processRow h cmap di ni wi ci row = None" using processRow_skips by blast
next
  assume x: "processXlsData h cmap aoa = Inr txs \<and> aoa \<noteq> []"
  from processXlsData_cases [of aoa h]
  obtain k dc nc wc cc where f: "firstHeaderAt h aoa k"
      "firstIndex (headerCells h (aoa ! k)) ''date'' dc"
      "firstIndex (headerCells h (aoa ! k)) ''narration'' nc"
      "firstIndex (headerCells h (aoa ! k)) ''withdrawal amt.'' wc"
      "firstIndex (headerCells h (aoa ! k)) ''deposit amt.'' cc"
  proof (elim disjE exE conjE)
    assume "aoa = []"
    then show ?thesis using x by simp
  next
    assume "aoa \<noteq> []" "\<forall>row \<in> set aoa. \<not> holdsHeaders h row"
    then show ?thesis using x processXlsData_no_header [of aoa h cmap] by simp
  next
    fix i
    assume "firstHeaderAt h aoa i"
      "\<not> (''withdrawal amt.'' \<in> set (headerCells h (aoa ! i)) \<and> ''deposit amt.'' \<in> set (headerCells h (aoa ! i)))"
    then show ?thesis using x processXlsData_missing [of h aoa i cmap] by simp
  next
    fix k di ni wi ci
    assume "firstHeaderAt h aoa k"
      "firstIndex (headerCells h (aoa ! k)) ''date'' di"
      "firstIndex (headerCells h (aoa ! k)) ''narration'' ni"
      "firstIndex (headerCells h (aoa ! k)) ''withdrawal amt.'' wi"
      "firstIndex (headerCells h (aoa ! k)) ''deposit amt.'' ci"
    then show ?thesis using that by blast
  qed
  have e: "txs = List.map_filter (processRow h cmap dc nc wc cc) (drop (k + 1) aoa)"
    using x processXlsData_rows [OF f, of cmap] by simp
  have "\<forall>t \<in> set txs.
              amount t \<noteq> 0 \<and> (type t = Credit \<longleftrightarrow> amount t \<ge> 0)
            \<and> (\<exists>src \<in> set (drop (k + 1) aoa).
                  processRow h cmap dc nc wc cc src = Some t
                \<and> (if parseAmount h (cellAt src cc) > 0
                   then amount t = parseAmount h (cellAt src cc)
                   else parseAmount h (cellAt src wc) > 0
                      \<and> amount t = - parseAmount h (cellAt src wc)))"
  proof
    fix t
    assume "t \<in> set txs"
    then obtain src where s: "src \<in> set (drop (k + 1) aoa)" "processRow h cmap dc nc wc cc src = Some t"
      using e map_filter_mem by metis
    show "amount t \<noteq> 0 \<and> (type t = Credit \<longleftrightarrow> amount t \<ge> 0)
            \<and> (\<exists>src \<in> set (drop (k + 1) aoa).
                  processRow h cmap dc nc wc cc src = Some t
                \<and> (if parseAmount h (cellAt src cc) > 0
                   then amount t = parseAmount h (cellAt src cc)
                   else parseAmount h (cellAt src wc) > 0
                      \<and> amount t = - parseAmount h (cellAt src wc)))"
      using processRow_amount [OF s(2)] s by blast
  qed
  then show "\<exists>k dc nc wc cc.
          firstHeaderAt h aoa k
        \<and> firstIndex (headerCells h (aoa ! k)) ''date'' dc
        \<and> firstIndex (headerCells h (aoa ! k)) ''narration'' nc
        \<and> firstIndex (headerCells h (aoa ! k)) ''withdrawal amt.'' wc
        \<and> firstIndex (headerCells h (aoa ! k)) ''deposit amt.'' cc
        \<and> txs = List.map_filter (processRow h cmap dc nc wc cc) (drop (k + 1) aoa)
        \<and> (\<forall>t \<in> set txs.
              amount t \<noteq> 0 \<and> (type t = Credit \<longleftrightarrow> amount t \<ge> 0)
            \<and> (\<exists>src \<in> set (drop (k + 1) aoa).
                  processRow h cmap dc nc wc cc src = Some t
                \<and> (if parseAmount h (cellAt src cc) > 0
                   then amount t = parseAmount h (cellAt src cc)
                   else parseAmount h (cellAt src wc) > 0
                      \<and> amount t = - parseAmount h (cellAt src wc))))"
    using f e by blast
qed


lemma sample_header_row: "findHeaderRow exampleHost sampleSheet 0 = Some 3"
  by code_simp

lemma sample_header_cells: "headerCells exampleHost (sampleSheet ! 3)
    = [''date'', ''narration'', ''chq./ref.no.'', ''withdrawal amt.'', ''deposit amt.'']"
  by code_simp

lemma sample_data_rows: "drop 4 sampleSheet =
    [[Str ''01/03/2025'', Str ''ATM WDL'', Str ''123'', Str ''5,000.00'', Str []],
     [Str ''********''],
     [Str ''02/03/2025'', Str ''SALARY'', Undefined, Undefined, Str ''100000''],
     [Str ''03/03/2025'', Str ''NOTHING'', Undefined, Undefined, Undefined]]"
  by (simp add: sampleSheet_def)

lemma sample_columns: "indexOf [''date'', ''narration'', ''chq./ref.no.'', ''withdrawal amt.'', ''deposit amt.''] ''date'' = Some 0"
  "indexOf [''date'', ''narration'', ''chq./ref.no.'', ''withdrawal amt.'', ''deposit amt.''] ''narration'' = Some 1"
  "indexOf [''date'', ''narration'', ''chq./ref.no.'', ''withdrawal amt.'', ''deposit amt.''] ''withdrawal amt.'' = Some 3"
  "indexOf [''date'', ''narration'', ''chq./ref.no.'', ''withdrawal amt.'', ''deposit amt.''] ''deposit amt.'' = Some 4"
  by (simp_all add: eval_nat_numeral)

lemma sample_dates: "parseDate exampleHost (Str ''01/03/2025'') = Some (DateUTC 2025 2 1)"
  "parseDate exampleHost (Str ''02/03/2025'') = Some (DateUTC 2025 2 2)"
  "parseDate exampleHost (Str ''03/03/2025'') = Some (DateUTC 2025 2 3)"
  "formatDate (DateUTC 2025 2 1) = ''2025-03-01''"
  "formatDate (DateUTC 2025 2 2) = ''2025-03-02''"
  by code_simp+

lemma sample_amounts: "parseAmount exampleHost (Str ''5,000.00'') = 5000"
  "parseAmount exampleHost (Str ''100000'') = 100000"
  "parseAmount exampleHost (Str []) = 0"
  "parseAmount exampleHost Undefined = 0"
  by (simp_all add: parseAmount_def stringOr_def truthy_def toStringJs_def stripNumeric_def
      isDigit_def parseFloat_def digitsVal_def digitVal_def)

lemma sample_categories: "getCategory [(''atm'', ''CASH'')] ''ATM WDL'' = ''CASH''"
  "getCategory [(''atm'', ''CASH'')] ''SALARY'' = ''Other''"
  by code_simp+

lemma sample_strings: "trim ''ATM WDL'' = ''ATM WDL''" "trim ''SALARY'' = ''SALARY''" "trim ''NOTHING'' = ''NOTHING''"
  "startsWith (trim ''01/03/2025'') ''*'' = False" "startsWith (trim ''02/03/2025'') ''*'' = False"
  "startsWith (trim ''03/03/2025'') ''*'' = False" "startsWith (trim ''********'') ''*'' = True"
  by code_simp+

lemma sample_rows:
  "processRow exampleHost [(''atm'', ''CASH'')] 0 (Suc 0) 3 4
     [Str ''01/03/2025'', Str ''ATM WDL'', Str ''123'', Str ''5,000.00'', Str []]
   = Some \<lparr>date = ''2025-03-01'', description = ''ATM WDL'', amount = - 5000,
            type = Debit, category = ''CASH'', recurring = None\<rparr>"
  "processRow exampleHost [(''atm'', ''CASH'')] 0 (Suc 0) 3 4 [Str ''********''] = None"
  "processRow exampleHost [(''atm'', ''CASH'')] 0 (Suc 0) 3 4
     [Str ''02/03/2025'', Str ''SALARY'', Undefined, Undefined, Str ''100000'']
   = Some \<lparr>date = ''2025-03-02'', description = ''SALARY'', amount = 100000,
            type = Credit, category = ''Other'', recurring = None\<rparr>"
  "processRow exampleHost [(''atm'', ''CASH'')] 0 (Suc 0) 3 4
     [Str ''03/03/2025'', Str ''NOTHING'', Undefined, Undefined, Undefined] = None"
  by (simp_all add: processRow_def Let_def cellAt_def stringOr_def truthy_def toStringJs_def
      sample_dates sample_amounts sample_categories sample_strings)

lemma sample_parsed:
  "processXlsData exampleHost [(''atm'', ''CASH'')] sampleSheet =
     Inr [\<lparr>date = ''2025-03-01'', description = ''ATM WDL'', amount = - 5000,
            type = Debit, category = ''CASH'', recurring = None\<rparr>,
          \<lparr>date = ''2025-03-02'', description = ''SALARY'', amount = 100000,
            type = Credit, category = ''Other'', recurring = None\<rparr>]"
proof -
  have "sampleSheet \<noteq> []" by (simp add: sampleSheet_def)
  then show ?thesis
    by (simp add: processXlsData_def Let_def sample_header_row sample_header_cells sample_columns sample_data_rows sample_rows List.map_filter_simps
        del: indexOf.simps)
qed

lemma sample_first: "firstHeaderAt exampleHost sampleSheet 3"
  using sample_header_row findHeaderRow_Some [of exampleHost sampleSheet 0 3] by simp

theorem parsed_amount_sign_witness:
  "processXlsData exampleHost [(''atm'', ''CASH'')] sampleSheet
     = Inr (List.map_filter (processRow exampleHost [(''atm'', ''CASH'')] 0 (Suc 0) 3 4)
             (drop 4 sampleSheet))
 \<and> processXlsData exampleHost [(''atm'', ''CASH'')] sampleSheet
     = Inr [\<lparr>date = ''2025-03-01'', description = ''ATM WDL'', amount = - 5000,
             type = Debit, category = ''CASH'', recurring = None\<rparr>,
            \<lparr>date = ''2025-03-02'', description = ''SALARY'', amount = 100000,
             type = Credit, category = ''Other'', recurring = None\<rparr>]
 \<and> processRow exampleHost [(''atm'', ''CASH'')] 0 (Suc 0) 3 4
      [Str ''01/03/2025'', Str ''ATM WDL'', Str ''123'', Str ''5,000.00'', Str []]
     = Some \<lparr>date = ''2025-03-01'', description = ''ATM WDL'',
              amount = - parseAmount exampleHost (Str ''5,000.00''),
              type = Debit, category = ''CASH'', recurring = None\<rparr>
 \<and> processRow exampleHost [(''atm'', ''CASH'')] 0 (Suc 0) 3 4
      [Str ''02/03/2025'', Str ''SALARY'', Undefined, Undefined, Str ''100000'']
     = Some \<lparr>date = ''2025-03-02'', description = ''SALARY'',
              amount = parseAmount exampleHost (Str ''100000''),
              type = Credit, category = ''Other'', recurring = None\<rparr>
 \<and> processRow exampleHost [(''atm'', ''CASH'')] 0 (Suc 0) 3 4
      [Str ''03/03/2025'', Str ''NOTHING'', Undefined, Undefined, Undefined] = None
 \<and> parseAmount exampleHost (Str ''5,000.00'') = 5000
 \<and> parseAmount exampleHost (Str ''100000'') = 100000"
proof -
  let ?c = "[(''atm'', ''CASH'')]"
  let ?r1 = "[Str ''01/03/2025'', Str ''ATM WDL'', Str ''123'', Str ''5,000.00'', Str []]"
  let ?r3 = "[Str ''02/03/2025'', Str ''SALARY'', Undefined, Undefined, Str ''100000'']"
  let ?r4 = "[Str ''03/03/2025'', Str ''NOTHING'', Undefined, Undefined, Undefined]"
  let ?t1 = "\<lparr>date = ''2025-03-01'', description = ''ATM WDL'', amount = - 5000,
            type = Debit, category = ''CASH'', recurring = None\<rparr>"
  let ?t2 = "\<lparr>date = ''2025-03-02'', description = ''SALARY'', amount = 100000,
            type = Credit, category = ''Other'', recurring = None\<rparr>"
  let ?hd = "headerCells exampleHost (sampleSheet ! 3)"
  have ne: "sampleSheet \<noteq> []" by (simp add: sampleSheet_def)
  obtain k dc nc wc cc where f: "firstHeaderAt exampleHost sampleSheet k"
      "firstIndex (headerCells exampleHost (sampleSheet ! k)) ''date'' dc"
      "firstIndex (headerCells exampleHost (sampleSheet ! k)) ''narration'' nc"
      "firstIndex (headerCells exampleHost (sampleSheet ! k)) ''withdrawal amt.'' wc"
      "firstIndex (headerCells exampleHost (sampleSheet ! k)) ''deposit amt.'' cc"
      "[?t1, ?t2] = List.map_filter (processRow exampleHost ?c dc nc wc cc) (drop (k + 1) sampleSheet)"
    using parsed_amount_sign [of exampleHost ?c 0 0 0 0 "[]" _ sampleSheet "[?t1, ?t2]"]
      sample_parsed ne by blast
  have k: "k = 3" using f(1) sample_first firstHeaderAt_unique by blast
  have i: "indexOf ?hd ''date'' = Some dc" "indexOf ?hd ''narration'' = Some nc"
      "indexOf ?hd ''withdrawal amt.'' = Some wc" "indexOf ?hd ''deposit amt.'' = Some cc"
    using f(2-5) unfolding k indexOf_Some_iff by simp_all
  have j: "dc = 0" "nc = Suc 0" "wc = 3" "cc = 4"
    using i unfolding sample_header_cells sample_columns by simp_all
  have a: "processXlsData exampleHost ?c sampleSheet
     = Inr (List.map_filter (processRow exampleHost ?c 0 (Suc 0) 3 4) (drop 4 sampleSheet))"
    using f(6) sample_parsed unfolding k j by simp
  have p1: "processRow exampleHost ?c 0 (Suc 0) 3 4 ?r1 = Some ?t1" by (rule sample_rows(1))
  have p3: "processRow exampleHost ?c 0 (Suc 0) 3 4 ?r3 = Some ?t2" by (rule sample_rows(3))
  have b: "amount ?t1 = - parseAmount exampleHost (Str ''5,000.00'')"
    using parsed_amount_sign [of exampleHost ?c 0 "Suc 0" 3 4 ?r1 ?t1] p1
    by (simp add: cellAt_def sample_amounts)
  have c: "amount ?t2 = parseAmount exampleHost (Str ''100000'')"
    using parsed_amount_sign [of exampleHost ?c 0 "Suc 0" 3 4 ?r3 ?t2] p3
    by (simp add: cellAt_def sample_amounts)
  have "\<not> parseAmount exampleHost (cellAt ?r4 4) > 0 \<and> \<not> parseAmount exampleHost (cellAt ?r4 3) > 0"
    by (simp add: cellAt_def sample_amounts)
  then have d: "processRow exampleHost ?c 0 (Suc 0) 3 4 ?r4 = None"
    using parsed_amount_sign [of exampleHost ?c 0 "Suc 0" 3 4 ?r4] by blast
  have e: "List.map_filter (processRow exampleHost ?c 0 (Suc 0) 3 4) (drop 4 sampleSheet) = [?t1, ?t2]"
    using f(6) unfolding k j by simp
  show ?thesis unfolding a e using p1 p3 b c d sample_amounts(1,2) by simp
qed

text \<open>
  Claim C1, as amended. On a document with zero rows processXlsData returns the empty
  list of transactions, with no error. It fails with the headers error exactly when the
  document has rows and none of them holds both a date and a narration header, and with
  the columns error exactly when the first row that holds both lacks the withdrawal or
  the deposit column.
\<close>

theorem zero_rows_empty_list:
  "processXlsData h cmap [] = Inr []
 \<and> (processXlsData h cmap aoa = Inl HeadersNotFound \<longleftrightarrow>
      aoa \<noteq> [] \<and> (\<forall>row \<in> set aoa. \<not> holdsHeaders h row))
 \<and> (processXlsData h cmap aoa = Inl RequiredColumnsMissing \<longleftrightarrow>
      (\<exists>i. firstHeaderAt h aoa i
         \<and> (''withdrawal amt.'' \<notin> set (headerCells h (aoa ! i))
            \<or> ''deposit amt.'' \<notin> set (headerCells h (aoa ! i)))))"
proof -
  let ?none = "aoa \<noteq> [] \<and> (\<forall>row \<in> set aoa. \<not> holdsHeaders h row)"
  let ?lacks = "\<exists>i. firstHeaderAt h aoa i
         \<and> (''withdrawal amt.'' \<notin> set (headerCells h (aoa ! i))
            \<or> ''deposit amt.'' \<notin> set (headerCells h (aoa ! i)))"
  have a: "processXlsData h cmap [] = Inr []" by (simp add: processXlsData_def)
  have b1: "processXlsData h cmap aoa = Inl HeadersNotFound" if ?none
    using that processXlsData_no_header by blast
  have c1: "processXlsData h cmap aoa = Inl RequiredColumnsMissing" if ?lacks
    using that processXlsData_missing by blast
  have d: "?none \<and> \<not> ?lacks" if x: "processXlsData h cmap aoa = Inl HeadersNotFound"
    using processXlsData_cases [of aoa h]
  proof (elim disjE exE conjE)
    assume "aoa = []"
    then show ?thesis using x by (simp add: processXlsData_def)
  next
    assume "aoa \<noteq> []" "\<forall>row \<in> set aoa. \<not> holdsHeaders h row"
    then show ?thesis using c1 x by auto
  next
    fix i
    assume "firstHeaderAt h aoa i"
      "\<not> (''withdrawal amt.'' \<in> set (headerCells h (aoa ! i)) \<and> ''deposit amt.'' \<in> set (headerCells h (aoa ! i)))"
    then show ?thesis using x processXlsData_missing [of h aoa i cmap] by simp
  next
    fix k di ni wi ci
    assume "firstHeaderAt h aoa k"
      "firstIndex (headerCells h (aoa ! k)) ''date'' di"
      "firstIndex (headerCells h (aoa ! k)) ''narration'' ni"
      "firstIndex (headerCells h (aoa ! k)) ''withdrawal amt.'' wi"
      "firstIndex (headerCells h (aoa ! k)) ''deposit amt.'' ci"
    then show ?thesis using x processXlsData_rows [of h aoa k di ni wi ci cmap] by simp
  qed
  have e: "?lacks" if x: "processXlsData h cmap aoa = Inl RequiredColumnsMissing"
    using processXlsData_cases [of aoa h]
  proof (elim disjE exE conjE)
    assume "aoa = []"
    then show ?thesis using x by (simp add: processXlsData_def)
  next
    assume "aoa \<noteq> []" "\<forall>row \<in> set aoa. \<not> holdsHeaders h row"
    then show ?thesis using x processXlsData_no_header [of aoa h cmap] by simp
  next
    fix i
    assume "firstHeaderAt h aoa i"
      "\<not> (''withdrawal amt.'' \<in> set (headerCells h (aoa ! i)) \<and> ''deposit amt.'' \<in> set (headerCells h (aoa ! i)))"
    then show ?thesis by blast
  next
    fix k di ni wi ci
    assume "firstHeaderAt h aoa k"
      "firstIndex (headerCells h (aoa ! k)) ''date'' di"
      "firstIndex (headerCells h (aoa ! k)) ''narration'' ni"
      "firstIndex (headerCells h (aoa ! k)) ''withdrawal amt.'' wi"
      "firstIndex (headerCells h (aoa ! k)) ''deposit amt.'' ci"
    then show ?thesis using x processXlsData_rows [of h aoa k di ni wi ci cmap] by simp
  qed
  show ?thesis using a b1 c1 d e by blast
qed

lemma titleOnly_rows: "titleOnly \<noteq> [] \<and> (\<forall>row \<in> set titleOnly. \<not> holdsHeaders exampleHost row)"
  unfolding titleOnly_def holdsHeaders_def by code_simp

lemma shortHeader_first: "firstHeaderAt exampleHost shortHeader 1"
  unfolding shortHeader_def firstHeaderAt_def holdsHeaders_def by code_simp

lemma shortHeader_cells: "''withdrawal amt.'' \<notin> set (headerCells exampleHost (shortHeader ! 1))"
  unfolding shortHeader_def by code_simp

theorem zero_rows_empty_list_witness:
  "processXlsData exampleHost [(''atm'', ''CASH'')] [] = Inr []
 \<and> processXlsData exampleHost [(''atm'', ''CASH'')] titleOnly = Inl HeadersNotFound
 \<and> processXlsData exampleHost [(''atm'', ''CASH'')] shortHeader = Inl RequiredColumnsMissing"
proof -
  let ?c = "[(''atm'', ''CASH'')]"
  have a: "processXlsData exampleHost ?c [] = Inr []"
    using zero_rows_empty_list [of exampleHost ?c] by blast
  have b: "processXlsData exampleHost ?c titleOnly = Inl HeadersNotFound"
    using zero_rows_empty_list [of exampleHost ?c titleOnly] titleOnly_rows by blast
  have c: "processXlsData exampleHost ?c shortHeader = Inl RequiredColumnsMissing"
    using zero_rows_empty_list [of exampleHost ?c shortHeader] shortHeader_first shortHeader_cells
    by blast
  show ?thesis using a b c by simp
qed

text \<open>The claim as first stated fails: the empty document gives the empty list, not an error.\<close>

theorem zero_rows_no_error:
  "processXlsData exampleHost [(''atm'', ''CASH'')] [] = Inr []
 \<and> \<not> isl (processXlsData exampleHost [(''atm'', ''CASH'')] [])"
  by (simp add: processXlsData_def)

section \<open>Properties of the category totals\<close>

lemma upsert_map_of:
  "map_of (upsert k i f m) = (map_of m)(k \<mapsto> f (case map_of m k of None \<Rightarrow> i | Some v \<Rightarrow> v))"
  by (induction m) (auto simp: fun_eq_iff)

lemma upsert_keys:
  "map fst (upsert k i f m) = (if k \<in> fst ` set m then map fst m else map fst m @ [k])"
  by (induction m) (fastforce simp: image_iff)+

lemma upsert_key_set: "fst ` set (upsert k i f m) = insert k (fst ` set m)"
proof -
  have "set (map fst (upsert k i f m)) = insert k (set (map fst m))"
    unfolding upsert_keys by auto
  then show ?thesis by simp
qed

lemma upsert_distinct: "distinct (map fst m) \<Longrightarrow> distinct (map fst (upsert k i f m))"
  by (simp add: upsert_keys)

lemma upsert_all:
  assumes "\<forall>(k', e) \<in> set m. P k' e" "P k (f i)" "\<And>v. P k v \<Longrightarrow> P k (f v)"
  shows "\<forall>(k', e) \<in> set (upsert k i f m). P k' e"
  using assms by (induction m) (auto split: if_splits)

lemma insertBy_mset: "mset (insertBy cmp x ys) = add_mset x (mset ys)"
  by (induction ys) auto

lemma sortBy_mset: "mset (sortBy cmp xs) = mset xs"
  by (induction xs) (auto simp: sortBy_def insertBy_mset)

lemma sortBy_set: "set (sortBy cmp xs) = set xs"
  using sortBy_mset [of cmp xs] by (metis set_mset_mset)

lemma sortBy_length: "length (sortBy cmp xs) = length xs"
  using sortBy_mset [of cmp xs] by (metis size_mset)

lemma addLabel_keyed: "keyed m \<Longrightarrow> keyed (addLabel t m c)"
  unfolding keyed_def addLabel_def
  by (rule upsert_all) (simp_all add: addToEntry_def)

lemma addLabel_distinct: "distinct (map fst m) \<Longrightarrow> distinct (map fst (addLabel t m c))"
  by (simp add: addLabel_def upsert_distinct)

lemma addLabel_keys: "fst ` set (addLabel t m c) = insert c (fst ` set m)"
  by (simp add: addLabel_def upsert_key_set)

lemma addLabel_expense:
  "entryExpense (addLabel t m c) c' =
     entryExpense m c' + (if c' = c \<and> type t \<noteq> Credit then \<bar>amount t\<bar> else 0)"
  by (auto simp: entryExpense_def addLabel_def upsert_map_of addToEntry_def split: option.splits)

lemma addLabel_income:
  "entryIncome (addLabel t m c) c' =
     entryIncome m c' + (if c' = c \<and> type t = Credit then amount t else 0)"
  by (auto simp: entryIncome_def addLabel_def upsert_map_of addToEntry_def split: option.splits)

lemma labels_keyed: "keyed m \<Longrightarrow> keyed (foldl (addLabel t) m ls)"
  by (induction ls arbitrary: m) (simp_all add: addLabel_keyed)

lemma labels_distinct:
  "distinct (map fst m) \<Longrightarrow> distinct (map fst (foldl (addLabel t) m ls))"
  by (induction ls arbitrary: m) (simp_all add: addLabel_distinct)

lemma labels_keys: "fst ` set (foldl (addLabel t) m ls) = fst ` set m \<union> set ls"
  by (induction ls arbitrary: m) (simp_all add: addLabel_keys)

lemma labels_expense:
  "entryExpense (foldl (addLabel t) m ls) c =
     entryExpense m c + (if type t = Credit then 0 else \<bar>amount t\<bar> * real (count_list ls c))"
  by (induction ls arbitrary: m) (simp_all add: addLabel_expense algebra_simps)

lemma labels_income:
  "entryIncome (foldl (addLabel t) m ls) c =
     entryIncome m c + (if type t = Credit then amount t * real (count_list ls c) else 0)"
  by (induction ls arbitrary: m) (simp_all add: addLabel_income algebra_simps)

lemma all_keyed:
  "keyed m \<Longrightarrow> keyed (foldl (\<lambda>catMap t. foldl (addLabel t) catMap (labelsOf t)) m ts)"
  by (induction ts arbitrary: m) (simp_all add: labels_keyed)

lemma all_distinct:
  "distinct (map fst m) \<Longrightarrow>
   distinct (map fst (foldl (\<lambda>catMap t. foldl (addLabel t) catMap (labelsOf t)) m ts))"
  by (induction ts arbitrary: m) (simp_all add: labels_distinct)

lemma all_keys:
  "fst ` set (foldl (\<lambda>catMap t. foldl (addLabel t) catMap (labelsOf t)) m ts)
     = fst ` set m \<union> (\<Union>t \<in> set ts. set (labelsOf t))"
  by (induction ts arbitrary: m) (simp_all add: labels_keys Un_assoc)

lemma all_expense:
  "entryExpense (foldl (\<lambda>catMap t. foldl (addLabel t) catMap (labelsOf t)) m ts) c
     = entryExpense m c + labelExpense ts c"
  by (induction ts arbitrary: m) (simp_all add: labels_expense labelExpense_def)

lemma all_income:
  "entryIncome (foldl (\<lambda>catMap t. foldl (addLabel t) catMap (labelsOf t)) m ts) c
     = entryIncome m c + labelIncome ts c"
  by (induction ts arbitrary: m) (simp_all add: labels_income labelIncome_def)

lemma labelsOf_split:
  "labelsOf t =
     (let ls = filter (\<lambda>c. c \<noteq> []) (split CHR ''-'' (category t))
      in if ls = [] then [''Other''] else ls)"
  by (simp add: labelsOf_def Let_def)

lemma keyed_categories: "keyed m \<Longrightarrow> map cs_category (map snd m) = map fst m"
  by (induction m) (auto simp: keyed_def)

text \<open>
  Claim C7. aggregateCategories splits the category of each transaction at the hyphens
  into its non-empty labels, Other when there is none, and gives one entry per label;
  the expense of an entry is the sum of the absolute amounts of the debits that carry the
  label and its income the sum of the amounts of the credits that carry it, each
  transaction counted in full for every one of its labels. The witness is the list of
  summarize.test.ts, whose debit of 1000 labelled \<open>FOOD-GROCERY SHOPPING\<close> adds 1000 to
  both totals.
\<close>

theorem category_totals:
  "distinct (map cs_category (aggregateCategories ts))
 \<and> set (map cs_category (aggregateCategories ts)) = (\<Union>t \<in> set ts. set (labelsOf t))
 \<and> (\<forall>e \<in> set (aggregateCategories ts).
       cs_expense e = labelExpense ts (cs_category e) \<and> cs_income e = labelIncome ts (cs_category e))
 \<and> labelsOf t =
     (let ls = filter (\<lambda>c. c \<noteq> []) (split CHR ''-'' (category t))
      in if ls = [] then [''Other''] else ls)"
proof -
  define M where "M = foldl (\<lambda>catMap t. foldl (addLabel t) catMap (labelsOf t)) [] ts"
  have R: "aggregateCategories ts = sortBy (\<lambda>a b. cs_expense b - cs_expense a) (map snd M)"
    by (simp add: aggregateCategories_def M_def)
  have k: "keyed M" unfolding M_def by (rule all_keyed) (simp add: keyed_def)
  have d: "distinct (map fst M)" unfolding M_def by (rule all_distinct) simp
  have ks: "fst ` set M = (\<Union>t \<in> set ts. set (labelsOf t))"
    unfolding M_def by (simp add: all_keys)
  have ex: "entryExpense M c = labelExpense ts c" for c
    using all_expense [of "[]" ts c] by (simp add: M_def entryExpense_def)
  have inc: "entryIncome M c = labelIncome ts c" for c
    using all_income [of "[]" ts c] by (simp add: M_def entryIncome_def)
  have cats: "map cs_category (map snd M) = map fst M" using k by (rule keyed_categories)
  have "mset (map cs_category (aggregateCategories ts)) = mset (map fst M)"
    unfolding R using sortBy_mset [of _ "map snd M"] cats by (metis mset_map)
  then have 1: "distinct (map cs_category (aggregateCategories ts))"
    and 2: "set (map cs_category (aggregateCategories ts)) = fst ` set M"
    using d by (metis mset_eq_imp_distinct_iff, metis set_mset_mset set_map)
  have 3: "cs_expense e = labelExpense ts (cs_category e) \<and> cs_income e = labelIncome ts (cs_category e)"
    if "e \<in> set (aggregateCategories ts)" for e
  proof -
    have "e \<in> snd ` set M" using that unfolding R by (simp add: sortBy_set)
    then obtain c where ce: "(c, e) \<in> set M" by auto
    then have "cs_category e = c" using k by (auto simp: keyed_def)
    moreover have "map_of M c = Some e" using ce d by simp
    ultimately show ?thesis using ex [of c] inc [of c] by (simp add: entryExpense_def entryIncome_def)
  qed
  show ?thesis using 1 2 3 ks labelsOf_split [of t] by simp
qed


lemma sample_totals:
  "aggregateCategories sample =
     [\<lparr>cs_category = ''FOOD'', cs_expense = 5200, cs_income = 0\<rparr>,
      \<lparr>cs_category = ''GROCERY SHOPPING'', cs_expense = 4500, cs_income = 0\<rparr>,
      \<lparr>cs_category = ''SALARY'', cs_expense = 0, cs_income = 200000\<rparr>]"
  by (simp add: aggregateCategories_def sample_def labelsOf_def addLabel_def addToEntry_def
      sortBy_def Let_def)

lemma combined_totals:
  "aggregateCategories [sample ! 4] =
     [\<lparr>cs_category = ''FOOD'', cs_expense = 1000, cs_income = 0\<rparr>,
      \<lparr>cs_category = ''GROCERY SHOPPING'', cs_expense = 1000, cs_income = 0\<rparr>]"
  by (simp add: aggregateCategories_def sample_def labelsOf_def addLabel_def addToEntry_def
      sortBy_def Let_def)

theorem category_totals_witness:
  "aggregateCategories [sample ! 4] =
     [\<lparr>cs_category = ''FOOD'', cs_expense = 1000, cs_income = 0\<rparr>,
      \<lparr>cs_category = ''GROCERY SHOPPING'', cs_expense = 1000, cs_income = 0\<rparr>]
 \<and> labelsOf (sample ! 4) = [''FOOD'', ''GROCERY SHOPPING'']
 \<and> labelExpense [sample ! 4] ''FOOD'' = 1000
 \<and> labelExpense [sample ! 4] ''GROCERY SHOPPING'' = 1000
 \<and> aggregateCategories sample =
     [\<lparr>cs_category = ''FOOD'', cs_expense = 5200, cs_income = 0\<rparr>,
      \<lparr>cs_category = ''GROCERY SHOPPING'', cs_expense = 4500, cs_income = 0\<rparr>,
      \<lparr>cs_category = ''SALARY'', cs_expense = 0, cs_income = 200000\<rparr>]
 \<and> labelExpense sample ''FOOD'' = 5200 \<and> labelExpense sample ''GROCERY SHOPPING'' = 4500
 \<and> labelIncome sample ''SALARY'' = 200000"
proof -
  have a: "\<forall>e \<in> set (aggregateCategories sample).
      cs_expense e = labelExpense sample (cs_category e)
    \<and> cs_income e = labelIncome sample (cs_category e)"
    using category_totals [of sample] by blast
  have b: "\<forall>e \<in> set (aggregateCategories [sample ! 4]).
      cs_expense e = labelExpense [sample ! 4] (cs_category e)"
    using category_totals [of "[sample ! 4]"] by blast
  have c: "labelsOf (sample ! 4) = [''FOOD'', ''GROCERY SHOPPING'']"
    by (simp add: labelsOf_def sample_def)
  have d: "labelExpense sample ''FOOD'' = 5200 \<and> labelExpense sample ''GROCERY SHOPPING'' = 4500
      \<and> labelIncome sample ''SALARY'' = 200000"
    using a unfolding sample_totals by simp
  have e: "labelExpense [sample ! 4] ''FOOD'' = 1000
      \<and> labelExpense [sample ! 4] ''GROCERY SHOPPING'' = 1000"
    using b unfolding combined_totals by simp
  show ?thesis using c d e sample_totals combined_totals by simp
qed

section \<open>Properties of the anomaly detector\<close>

lemma foldl_add: "foldl (\<lambda>a b. a + g b) (s::real) xs = s + sum_list (map g xs)"
  by (induction xs arbitrary: s) simp_all

lemma sumOf_sum_list: "sumOf xs = sum_list xs"
  using foldl_add [of "\<lambda>x. x" 0 xs] by (simp add: sumOf_def)













lemma map_filter_if: "List.map_filter (\<lambda>x. if P x then Some (g x) else None) xs = map g (filter P xs)"
  by (induction xs) (simp_all add: List.map_filter_simps)


















section \<open>Properties of the forecast\<close>







lemma alist_by_keys:
  assumes "distinct (map fst m)"
  shows "m = map (\<lambda>k. (k, the (map_of m k))) (map fst m)"
proof -
  have "(fst p, the (map_of m (fst p))) = p" if "p \<in> set m" for p
  proof -
    have "map_of m (fst p) = Some (snd p)" using assms that by (intro map_of_is_SomeI) simp_all
    then show ?thesis by simp
  qed
  then have "map (\<lambda>p. (fst p, the (map_of m (fst p)))) m = m" by (intro map_idI) simp
  then show ?thesis by (simp add: comp_def)
qed



lemma month_sums:
  "sum_list (map amount (filter (\<lambda>t. amount t \<ge> 0) (filter (\<lambda>t. monthKey t = k) ts))) = monthIncome ts k"
  "sum_list (map (\<lambda>t. \<bar>amount t\<bar>) (filter (\<lambda>t. amount t < 0) (filter (\<lambda>t. monthKey t = k) ts)))
     = monthExpense ts k"
  by (simp_all add: monthIncome_def monthExpense_def conj_commute)



































section \<open>Properties of the recurring detector\<close>

lemma groups_fold:
  "map_of (foldl (\<lambda>groups t. upsert (normalizeDescription (description t)) [] (\<lambda>l. l @ [t]) groups) m ts) k
   = (if groupOf ts k = [] then map_of m k
      else Some ((case map_of m k of None \<Rightarrow> [] | Some l \<Rightarrow> l) @ groupOf ts k))"
proof (induction ts arbitrary: m)
  case Nil
  then show ?case by (simp add: groupOf_def)
next
  case (Cons t ts)
  show ?case
    by (simp add: Cons.IH upsert_map_of groupOf_def split: option.splits)
qed

lemma groups_keys:
  "map fst (foldl (\<lambda>groups t. upsert (normalizeDescription (description t)) [] (\<lambda>l. l @ [t]) groups) [] ts)
     = groupKeys ts"
proof (induction ts rule: rev_induct)
  case Nil
  show ?case by (simp add: groupKeys_def)
next
  case (snoc t ts)
  define G where
    "G = foldl (\<lambda>groups t. upsert (normalizeDescription (description t)) [] (\<lambda>l. l @ [t]) groups) [] ts"
  have ih: "map fst G = groupKeys ts" using snoc by (simp add: G_def)
  have "set (map fst G) = set (groupKeys ts)" using ih by simp
  then have k: "fst ` set G = (\<lambda>t. normalizeDescription (description t)) ` set ts"
    by (simp add: groupKeys_def)
  have "map fst (upsert (normalizeDescription (description t)) [] (\<lambda>l. l @ [t]) G) = groupKeys (ts @ [t])"
    unfolding upsert_keys k using ih by (simp add: groupKeys_def)
  then show ?case by (simp add: G_def)
qed

lemma groupKeys_set: "set (groupKeys ts) = (\<lambda>t. normalizeDescription (description t)) ` set ts"
  by (simp add: groupKeys_def)

lemma groupKeys_distinct: "distinct (groupKeys ts)"
  by (simp add: groupKeys_def)

lemma groupOf_empty: "groupOf ts k = [] \<longleftrightarrow> k \<notin> set (groupKeys ts)"
  by (auto simp: groupOf_def groupKeys_set filter_empty_conv)

lemma groups_eq:
  "foldl (\<lambda>groups t. upsert (normalizeDescription (description t)) [] (\<lambda>l. l @ [t]) groups) [] ts
     = map (\<lambda>k. (k, groupOf ts k)) (groupKeys ts)"
proof -
  define G where
    "G = foldl (\<lambda>groups t. upsert (normalizeDescription (description t)) [] (\<lambda>l. l @ [t]) groups) [] ts"
  have keys: "map fst G = groupKeys ts" unfolding G_def by (rule groups_keys)
  have d: "distinct (map fst G)" unfolding keys by (rule groupKeys_distinct)
  have v: "the (map_of G k) = groupOf ts k" if "k \<in> set (groupKeys ts)" for k
  proof -
    have "groupOf ts k \<noteq> []" using that by (simp add: groupOf_empty)
    then show ?thesis unfolding G_def by (simp add: groups_fold)
  qed
  have "G = map (\<lambda>k. (k, the (map_of G k))) (map fst G)" using d by (rule alist_by_keys)
  also have "\<dots> = map (\<lambda>k. (k, groupOf ts k)) (groupKeys ts)"
    unfolding keys using v by (intro map_cong) auto
  finally show ?thesis unfolding G_def .
qed

lemma patterns_loop:
  "patterns (foldl (\<lambda>r (key, list).
                  case groupPattern h key list of
                    None \<Rightarrow> r
                  | Some (p, list') \<Rightarrow>
                      \<lparr>patterns = patterns r @ [p], recurringIds = addIds (recurringIds r) list'\<rparr>)
           r gs)
     = patterns r @ List.map_filter (\<lambda>(key, list). map_option fst (groupPattern h key list)) gs"
proof (induction gs arbitrary: r)
  case Nil
  show ?case by (simp add: List.map_filter_simps)
next
  case (Cons g gs)
  obtain k l where g: "g = (k, l)" by (cases g)
  show ?case
    by (cases "groupPattern h k l") (auto simp: Cons.IH g List.map_filter_simps)
qed

lemma positiveGaps_Cons:
  "positiveGaps h (a # b # later) =
     (case dayGap h a b of
        None \<Rightarrow> positiveGaps h (b # later)
      | Some g \<Rightarrow> if g > 0 then g # positiveGaps h (b # later) else positiveGaps h (b # later))"
  by (simp add: positiveGaps_def List.map_filter_simps split: option.splits)

lemma intervalsOf_Cons:
  "intervalsOf h (a # b # later) =
     (case dayGap h a b of
        None \<Rightarrow> intervalsOf h (b # later)
      | Some g \<Rightarrow> if g > 0 then g # intervalsOf h (b # later) else intervalsOf h (b # later))"
  by (simp add: dayGap_def Let_def split: jsDate.splits)

lemma intervalsOf_gaps: "intervalsOf h xs = positiveGaps h xs"
proof (induction xs rule: induct_list012)
  case 1
  show ?case by (simp add: positiveGaps_def List.map_filter_simps)
next
  case (2 x)
  show ?case by (simp add: positiveGaps_def List.map_filter_simps)
next
  case (3 x y zs)
  show ?case unfolding positiveGaps_Cons intervalsOf_Cons 3(2) ..
qed

lemma positiveGaps_positive: "g \<in> set (positiveGaps h xs) \<Longrightarrow> 0 < g"
  by (auto simp: positiveGaps_def List.map_filter_def split: option.splits if_splits)

lemma sum_list_positive: "xs \<noteq> [] \<Longrightarrow> \<forall>x \<in> set xs. (0::real) < x \<Longrightarrow> 0 < sum_list xs"
  by (induction xs) (auto intro: add_pos_nonneg sum_list_nonneg less_imp_le)

lemma meanOf_positive:
  assumes "positiveGaps h xs \<noteq> []"
  shows "0 < meanOf (positiveGaps h xs)"
proof -
  have "0 < sum_list (positiveGaps h xs)"
    using assms positiveGaps_positive by (intro sum_list_positive) auto
  then show ?thesis using assms by (simp add: meanOf_def sumOf_sum_list)
qed

lemma groupPattern_key:
  "map_option fst (groupPattern h k (groupOf ts k))
     = (if recurringKey h ts k then Some (patternOf h ts k) else None)"
proof -
  let ?gs = "positiveGaps h (occurrences h ts k)"
  have m: "?gs \<noteq> [] \<Longrightarrow> 0 < meanOf ?gs" by (rule meanOf_positive)
  have a: "sumOf ?gs / real (length ?gs) = meanOf ?gs" by (simp add: meanOf_def)
  have v: "foldl (\<lambda>s v. s + (v - meanOf ?gs) ^ 2) 0 ?gs / real (length ?gs) = varianceOf ?gs"
    by (simp add: varianceOf_def)
  show ?thesis
    using m
    by (simp add: groupPattern_def Let_def intervalsOf_gaps occurrences_def [symmetric] a v
        recurringKey_def patternOf_def sortBy_length not_less)
       (simp add: occurrences_def sortBy_length)
qed

lemma map_filter_map: "List.map_filter f (map g xs) = List.map_filter (\<lambda>x. f (g x)) xs"
  by (induction xs) (simp_all add: List.map_filter_simps split: option.splits)

lemma detectRecurring_patterns:
  "patterns (detectRecurring h ts) = map (patternOf h ts) (filter (recurringKey h ts) (groupKeys ts))"
proof -
  have "patterns (detectRecurring h ts)
      = List.map_filter (\<lambda>(key, list). map_option fst (groupPattern h key list))
          (map (\<lambda>k. (k, groupOf ts k)) (groupKeys ts))"
    by (simp add: detectRecurring_def Let_def patterns_loop groups_eq)
  also have "\<dots> = List.map_filter (\<lambda>k. map_option fst (groupPattern h k (groupOf ts k))) (groupKeys ts)"
    by (simp add: map_filter_map)
  also have "\<dots> = List.map_filter (\<lambda>k. if recurringKey h ts k then Some (patternOf h ts k) else None)
                      (groupKeys ts)"
    by (simp add: groupPattern_key)
  finally show ?thesis by (simp add: map_filter_if)
qed

lemma insertBy_insort_key:
  "\<forall>y \<in> set ys. (cmp x y \<le> (0::int)) = (f x \<le> f y) \<Longrightarrow> insertBy cmp x ys = insort_key f x ys"
  by (induction ys) simp_all

lemma sortBy_sort_key_on:
  "\<forall>a \<in> set xs. \<forall>b \<in> set xs. (cmp a b \<le> (0::int)) = (f a \<le> f b) \<Longrightarrow> sortBy cmp xs = sort_key f xs"
proof (induction xs)
  case Nil
  show ?case by (simp add: sortBy_def)
next
  case (Cons x xs)
  have ih: "sortBy cmp xs = sort_key f xs" using Cons by simp
  have "insertBy cmp x (sort_key f xs) = insort_key f x (sort_key f xs)"
    using Cons.prems by (intro insertBy_insort_key) simp
  then show ?case using ih by (simp add: sortBy_def)
qed

lemma occurrences_chronological:
  assumes "chronological h ts"
  shows "sorted_wrt (\<lambda>a b. readTime h a \<le> readTime h b) (occurrences h ts k)"
proof -
  have "\<forall>a \<in> set (groupOf ts k). \<forall>b \<in> set (groupOf ts k).
      (localeCompare h (date a) (date b) \<le> 0) = (readTime h a \<le> readTime h b)"
    using assms by (simp add: chronological_def groupOf_def)
  then have "occurrences h ts k = sort_key (readTime h) (groupOf ts k)"
    unfolding occurrences_def by (rule sortBy_sort_key_on)
  moreover have "sorted (map (readTime h) (sort_key (readTime h) (groupOf ts k)))"
    by (rule sorted_sort_key)
  ultimately show ?thesis by (simp add: sorted_map)
qed

text \<open>
  Claim C8. detectRecurring gives one pattern for every recurring key, in the order in
  which the keys first occur, and nothing else: there is a pattern with a given key
  exactly when the group of that key has at least three members, there is at least one
  positive gap in days between neighbouring occurrences, and the population standard
  deviation of the positive gaps is less than half their mean. No two patterns have the
  same key, the count of a pattern is the size of its group, and a group with fewer than
  three members gives no pattern. The occurrences are the group in the order of the host's
  comparison of the date strings; when that comparison is chronological on the list, they
  are in the order of their times.
\<close>

theorem recurring_patterns:
  "patterns (detectRecurring h ts) = map (patternOf h ts) (filter (recurringKey h ts) (groupKeys ts))
 \<and> ((\<exists>p \<in> set (patterns (detectRecurring h ts)). rp_key p = k) \<longleftrightarrow> recurringKey h ts k)
 \<and> distinct (map rp_key (patterns (detectRecurring h ts)))
 \<and> (\<forall>p \<in> set (patterns (detectRecurring h ts)).
       rp_count p = length (groupOf ts (rp_key p)) \<and> 3 \<le> rp_count p)
 \<and> (length (groupOf ts k) < 3 \<longrightarrow> (\<forall>p \<in> set (patterns (detectRecurring h ts)). rp_key p \<noteq> k))
 \<and> (chronological h ts \<longrightarrow>
       sorted_wrt (\<lambda>a b. readTime h a \<le> readTime h b) (occurrences h ts k))"
proof -
  have e: "patterns (detectRecurring h ts)
      = map (patternOf h ts) (filter (recurringKey h ts) (groupKeys ts))"
    by (rule detectRecurring_patterns)
  have keys: "map rp_key (patterns (detectRecurring h ts)) = filter (recurringKey h ts) (groupKeys ts)"
    unfolding e by (simp add: comp_def patternOf_def)
  have mem: "recurringKey h ts k \<Longrightarrow> k \<in> set (groupKeys ts)" for k
  proof -
    assume "recurringKey h ts k"
    then have "groupOf ts k \<noteq> []" by (auto simp: recurringKey_def)
    then show ?thesis by (simp add: groupOf_empty)
  qed
  have "(\<exists>p \<in> set (patterns (detectRecurring h ts)). rp_key p = k)
      \<longleftrightarrow> k \<in> set (map rp_key (patterns (detectRecurring h ts)))"
    by (auto simp: image_iff)
  also have "\<dots> \<longleftrightarrow> recurringKey h ts k" unfolding keys using mem [of k] by auto
  finally have 1: "(\<exists>p \<in> set (patterns (detectRecurring h ts)). rp_key p = k) \<longleftrightarrow> recurringKey h ts k" .
  have 2: "distinct (map rp_key (patterns (detectRecurring h ts)))"
    unfolding keys using groupKeys_distinct [of ts] by simp
  have 3: "rp_count p = length (groupOf ts (rp_key p)) \<and> 3 \<le> rp_count p"
    if "p \<in> set (patterns (detectRecurring h ts))" for p
  proof -
    have "p \<in> set (map (patternOf h ts) (filter (recurringKey h ts) (groupKeys ts)))"
      using that e by simp
    then obtain c where c: "recurringKey h ts c" "p = patternOf h ts c" by auto
    then show ?thesis by (simp add: patternOf_def recurringKey_def)
  qed
  have 4: "rp_key p \<noteq> k" if "length (groupOf ts k) < 3" "p \<in> set (patterns (detectRecurring h ts))" for p
  proof
    assume "rp_key p = k"
    then have "recurringKey h ts k" using 1 that(2) by blast
    then show False using that(1) by (simp add: recurringKey_def)
  qed
  show ?thesis using e 1 2 3 4 occurrences_chronological by blast
qed

lemma descriptions:
  "normalizeDescription ''NETFLIX.COM'' = ''netflix com''"
  "normalizeDescription ''Netflix com'' = ''netflix com''"
  "normalizeDescription ''netflix  com '' = ''netflix com''"
  "normalizeDescription ''Gym'' = ''gym''" "normalizeDescription ''GYM'' = ''gym''"
  by code_simp+

lemma monthlyPayments_keys: "groupKeys monthlyPayments = [''netflix com'']"
  by (simp add: groupKeys_def monthlyPayments_def payment_def descriptions)

lemma monthlyPayments_group:
  "groupOf monthlyPayments ''netflix com'' = monthlyPayments"
  by (simp add: groupOf_def monthlyPayments_def payment_def descriptions)

lemma date_order:
  "localeCompare exampleHost ''2025-01-15'' ''2025-01-15'' = 0"
  "localeCompare exampleHost ''2025-01-15'' ''2025-02-15'' = - 1"
  "localeCompare exampleHost ''2025-01-15'' ''2025-03-15'' = - 1"
  "localeCompare exampleHost ''2025-02-15'' ''2025-01-15'' = 1"
  "localeCompare exampleHost ''2025-02-15'' ''2025-02-15'' = 0"
  "localeCompare exampleHost ''2025-02-15'' ''2025-03-15'' = - 1"
  "localeCompare exampleHost ''2025-03-15'' ''2025-01-15'' = 1"
  "localeCompare exampleHost ''2025-03-15'' ''2025-02-15'' = 1"
  "localeCompare exampleHost ''2025-03-15'' ''2025-03-15'' = 0"
  by code_simp+

lemma date_times:
  "parseDateString exampleHost ''2025-01-15'' = Date 1736899200000"
  "parseDateString exampleHost ''2025-02-15'' = Date 1739577600000"
  "parseDateString exampleHost ''2025-03-15'' = Date 1741996800000"
  by code_simp+

lemma monthlyPayments_occurrences:
  "occurrences exampleHost monthlyPayments ''netflix com'' =
     [payment 2 ''2025-01-15'' ''Netflix com'', payment 3 ''2025-02-15'' ''netflix  com '',
      payment 1 ''2025-03-15'' ''NETFLIX.COM'']"
  unfolding occurrences_def monthlyPayments_group
  by (simp add: monthlyPayments_def sortBy_def payment_def date_order)

lemma monthlyPayments_gaps:
  "positiveGaps exampleHost (occurrences exampleHost monthlyPayments ''netflix com'') = [31, 28]"
  unfolding monthlyPayments_occurrences
  by (simp add: positiveGaps_def List.map_filter_simps dayGap_def payment_def date_times)

lemma sqrt_9_4: "sqrt (9 / 4) = 3 / 2"
  by (rule real_sqrt_unique) (simp_all add: power2_eq_square)

lemma gap_statistics: "meanOf [31, 28] = 59 / 2" "varianceOf [31, 28] = 9 / 4"
  by (simp_all add: meanOf_def varianceOf_def sumOf_def power2_eq_square)

lemma monthlyPayments_recurring: "recurringKey exampleHost monthlyPayments ''netflix com''"
  unfolding recurringKey_def monthlyPayments_gaps gap_statistics sqrt_9_4 monthlyPayments_group
  by (simp add: monthlyPayments_def)

lemma monthlyPayments_pattern:
  "patternOf exampleHost monthlyPayments ''netflix com'' =
     \<lparr>rp_key = ''netflix com'', rp_count = 3, avgIntervalDays = 59 / 2, lastDate = ''2025-03-15''\<rparr>"
proof -
  have "(59 / 2 :: real) * 10 + 1 / 2 = 591 / 2" by simp
  moreover have "\<lfloor>(591 / 2 :: real)\<rfloor> = 295" by simp
  ultimately have "real_of_int \<lfloor>(59 / 2 :: real) * 10 + 1 / 2\<rfloor> / 10 = 59 / 2" by simp
  then show ?thesis
    unfolding patternOf_def monthlyPayments_gaps gap_statistics monthlyPayments_group
    by (simp add: monthlyPayments_occurrences) (simp add: monthlyPayments_def payment_def)
qed

lemma monthlyPayments_chronological: "chronological exampleHost monthlyPayments"
  by (simp add: chronological_def monthlyPayments_def payment_def readTime_def date_order date_times)

lemma twoPayments_group: "length (groupOf twoPayments ''gym'') = 2"
  by (simp add: groupOf_def twoPayments_def payment_def descriptions)

lemma twoPayments_keys: "groupKeys twoPayments = [''gym'']"
  by (simp add: groupKeys_def twoPayments_def payment_def descriptions)

theorem recurring_patterns_witness:
  "patterns (detectRecurring exampleHost monthlyPayments) =
     [\<lparr>rp_key = ''netflix com'', rp_count = 3, avgIntervalDays = 59 / 2, lastDate = ''2025-03-15''\<rparr>]
 \<and> positiveGaps exampleHost (occurrences exampleHost monthlyPayments ''netflix com'') = [31, 28]
 \<and> sorted_wrt (\<lambda>a b. readTime exampleHost a \<le> readTime exampleHost b)
      (occurrences exampleHost monthlyPayments ''netflix com'')
 \<and> length (groupOf twoPayments ''gym'') = 2
 \<and> patterns (detectRecurring exampleHost twoPayments) = []"
proof -
  note M = recurring_patterns [of exampleHost monthlyPayments "''netflix com''"]
  note T = recurring_patterns [of exampleHost twoPayments "''gym''"]
  have "patterns (detectRecurring exampleHost monthlyPayments)
      = map (patternOf exampleHost monthlyPayments) (filter (recurringKey exampleHost monthlyPayments) (groupKeys monthlyPayments))"
    using M by (rule conjunct1)
  then have a: "patterns (detectRecurring exampleHost monthlyPayments) =
     [\<lparr>rp_key = ''netflix com'', rp_count = 3, avgIntervalDays = 59 / 2, lastDate = ''2025-03-15''\<rparr>]"
    unfolding monthlyPayments_keys by (simp add: monthlyPayments_recurring monthlyPayments_pattern)
  have b: "sorted_wrt (\<lambda>a b. readTime exampleHost a \<le> readTime exampleHost b)
      (occurrences exampleHost monthlyPayments ''netflix com'')"
    using M monthlyPayments_chronological by blast
  have n: "\<forall>p \<in> set (patterns (detectRecurring exampleHost twoPayments)). rp_key p \<noteq> ''gym''"
    using T twoPayments_group by simp
  have "patterns (detectRecurring exampleHost twoPayments)
      = map (patternOf exampleHost twoPayments) (filter (recurringKey exampleHost twoPayments) (groupKeys twoPayments))"
    using T by (rule conjunct1)
  then have "set (map rp_key (patterns (detectRecurring exampleHost twoPayments))) \<subseteq> {''gym''}"
    unfolding twoPayments_keys by (auto simp: patternOf_def)
  then have c: "patterns (detectRecurring exampleHost twoPayments) = []"
    using n by (cases "patterns (detectRecurring exampleHost twoPayments)") auto
  show ?thesis using a b c monthlyPayments_gaps twoPayments_group by simp
qed


end
